theory Spec2Isabelle
  imports Main
begin

section \<open>Events, channels and faults\<close>

text \<open>
  The broker routes CloudEvents on their type string only, so an event is a record of
  the four attributes the tests set; \<open>ev_type\<close> is what \<open>event.Type()\<close> reads.
\<close>

record event =
  ev_id :: string
  ev_source :: string
  ev_type :: string
  ev_data :: string

text \<open>
  A Go channel is a bounded FIFO buffer with a capacity and a closed flag. Channels live
  in a store (a list), and a channel value is its index there. An index outside the
  store plays the role of the nil channel.
\<close>

type_synonym chan_id = nat

record chan =
  buf :: "event list"
  cap :: nat
  closed :: bool

datatype fault = Send_on_closed | Close_of_closed | Close_of_nil | Negative_WaitGroup

text \<open>
  The result of an operation that may panic or may have to wait: \<open>Done\<close> with the new
  state, \<open>Fault\<close> for a run-time panic, \<open>Blocked\<close> when the operation cannot proceed in
  the present state.
\<close>

datatype 'a outcome = Done 'a | Fault fault | Blocked

fun and_then :: "'a outcome \<Rightarrow> ('a \<Rightarrow> 'b outcome) \<Rightarrow> 'b outcome" where
  "and_then (Done x) f = f x"
| "and_then (Fault e) f = Fault e"
| "and_then Blocked f = Blocked"

definition make_chan :: "nat \<Rightarrow> chan list \<Rightarrow> chan_id \<times> chan list" where
  "make_chan n h = (length h, h @ [\<lparr>buf = [], cap = n, closed = False\<rparr>])"

definition push :: "event \<Rightarrow> chan_id \<Rightarrow> chan list \<Rightarrow> chan list" where
  "push e c h = h[c := (h ! c)\<lparr>buf := buf (h ! c) @ [e]\<rparr>]"

text \<open>
  \<open>ch <- e\<close>: panics on a closed channel, waits while the buffer is full. A send on an
  unbuffered channel would also pass to a receiver that is waiting; the only unbuffered
  channel of the program is the one \<open>Subscribe\<close> closes before returning it, so this
  case is left out.
\<close>

definition chan_send :: "chan_id \<Rightarrow> event \<Rightarrow> chan list \<Rightarrow> chan list outcome" where
  "chan_send c e h =
     (if c < length h then
        (if closed (h ! c) then Fault Send_on_closed
         else if length (buf (h ! c)) < cap (h ! c) then Done (push e c h)
         else Blocked)
      else Blocked)"

text \<open>\<open>close(ch)\<close>: panics on a channel that is closed already.\<close>

definition chan_close :: "chan_id \<Rightarrow> chan list \<Rightarrow> chan list outcome" where
  "chan_close c h =
     (if c < length h then
        (if closed (h ! c) then Fault Close_of_closed
         else Done (h[c := (h ! c)\<lparr>closed := True\<rparr>]))
      else Fault Close_of_nil)"

text \<open>
  \<open>e, ok := <-ch\<close>: the oldest buffered event if there is one; on an empty buffer,
  end of stream (\<open>ok = false\<close>) when the channel is closed, and a wait otherwise.
\<close>

datatype recv = Received event "chan list" | End_of_stream | Recv_blocked

definition chan_recv :: "chan_id \<Rightarrow> chan list \<Rightarrow> recv" where
  "chan_recv c h =
     (if c < length h then
        (case buf (h ! c) of
           e # es \<Rightarrow> Received e (h[c := (h ! c)\<lparr>buf := es\<rparr>])
         | [] \<Rightarrow> (if closed (h ! c) then End_of_stream else Recv_blocked))
      else Recv_blocked)"

section \<open>The broker\<close>

text \<open>
  \<open>subscribers\<close> is the Go map from event type to the channels subscribed to it, kept
  as an association list; \<open>lookup\<close> is the map index (a missing key reads as the nil
  slice) and \<open>assign\<close> the map store. The mutex \<open>mu\<close> has no field: each section of
  code that runs under it is one atomic step below.
\<close>

record Broker =
  subscribers :: "(string \<times> chan_id list) list"
  allSubscribers :: "chan_id list"
  wg :: int
  shuttingDown :: bool

fun lookup :: "(string \<times> chan_id list) list \<Rightarrow> string \<Rightarrow> chan_id list" where
  "lookup [] k = []"
| "lookup ((k', v) # m) k = (if k = k' then v else lookup m k)"

fun assign :: "(string \<times> chan_id list) list \<Rightarrow> string \<Rightarrow> chan_id list
    \<Rightarrow> (string \<times> chan_id list) list" where
  "assign [] k v = [(k, v)]"
| "assign ((k', v') # m) k v = (if k = k' then (k, v) # m else (k', v') # assign m k v)"

text \<open>
  Besides the callers of the four methods, the program runs one goroutine per delivery
  (spawned by \<open>Publish\<close>) and one per callback subscription (spawned by
  \<open>SubscribeFunc\<close>). A goroutine is recorded by the point it has reached. The points
  are the places where another goroutine can run in between: after the load of
  \<open>shuttingDown\<close> (before the mutex is taken), after the store to it, after
  \<open>wg.Wait()\<close>, and between a send and the deferred \<open>wg.Done()\<close>. \<open>Consume\<close>
  carries the events the callback has been called with so far, in order.
\<close>

datatype goroutine =
    Subscribe_enter string
  | Subscribe_register string
  | SubscribeFunc_enter string
  | SubscribeFunc_register string
  | Publish_enter event
  | Publish_dispatch event
  | Shutdown_enter
  | Shutdown_wait
  | Shutdown_close
  | Deliver chan_id event
  | Deliver_done
  | Consume chan_id "event list"
  | Consume_exit "event list"
  | Returned "chan_id option"

record world =
  eb :: Broker
  chans :: "chan list"
  gos :: "goroutine list"

definition NewBroker :: world where
  "NewBroker =
     \<lparr>eb = \<lparr>subscribers = [], allSubscribers = [], wg = 0, shuttingDown = False\<rparr>,
      chans = [], gos = []\<rparr>"

definition spawn :: "goroutine \<Rightarrow> world \<Rightarrow> world" where
  "spawn g w = w\<lparr>gos := gos w @ [g]\<rparr>"

definition set_go :: "nat \<Rightarrow> goroutine \<Rightarrow> world \<Rightarrow> world" where
  "set_go i g w = w\<lparr>gos := (gos w)[i := g]\<rparr>"

text \<open>
  Each method is given twice: as a function on states, which is a call that no other
  goroutine interleaves with, and, in \<open>run\<close> below, by the atomic steps of its caller.
  Both are built from the same pieces, and the lemmas \<open>Subscribe_as_steps\<close>,
  \<open>SubscribeFunc_as_steps\<close>, \<open>Publish_as_steps\<close> and \<open>Shutdown_as_steps\<close> show
  that the function is the run of the steps.
\<close>

subsection \<open>Subscribe\<close>

text \<open>The branch taken when \<open>shuttingDown\<close> reads true: a fresh unbuffered channel, closed.\<close>

definition Subscribe_closed :: "world \<Rightarrow> chan_id \<times> world" where
  "Subscribe_closed w =
     (case make_chan 0 (chans w) of
        (ch, h) \<Rightarrow> (ch, w\<lparr>chans := h[ch := (h ! ch)\<lparr>closed := True\<rparr>]\<rparr>))"

text \<open>The section under \<open>mu.Lock()\<close>: a fresh channel of capacity 10 is registered.\<close>

definition Subscribe_locked :: "string \<Rightarrow> world \<Rightarrow> chan_id \<times> world" where
  "Subscribe_locked eventType w =
     (case make_chan 10 (chans w) of
        (ch, h) \<Rightarrow>
          (ch,
           if eventType = ''*''
           then w\<lparr>eb := (eb w)\<lparr>allSubscribers := allSubscribers (eb w) @ [ch]\<rparr>, chans := h\<rparr>
           else w\<lparr>eb := (eb w)\<lparr>subscribers :=
                   assign (subscribers (eb w)) eventType
                     (lookup (subscribers (eb w)) eventType @ [ch])\<rparr>,
                  chans := h\<rparr>))"

definition Subscribe :: "string \<Rightarrow> world \<Rightarrow> chan_id \<times> world" where
  "Subscribe eventType w =
     (if shuttingDown (eb w) then Subscribe_closed w else Subscribe_locked eventType w)"

subsection \<open>Publish\<close>

text \<open>
  One iteration of either loop: \<open>wg.Add(1)\<close> and the \<open>go\<close> statement. The goroutine
  sends to the channel of its own iteration: the loop variable \<open>subs\<close> is a new
  variable in each iteration (Go 1.22 and later; the test with two subscribers of one
  type relies on it).
\<close>

definition spawn_deliver :: "event \<Rightarrow> chan_id \<Rightarrow> world \<Rightarrow> world" where
  "spawn_deliver event subs w =
     spawn (Deliver subs event) (w\<lparr>eb := (eb w)\<lparr>wg := wg (eb w) + 1\<rparr>\<rparr>)"

text \<open>The section under \<open>mu.RLock()\<close>: the loop over the type's subscribers, then the loop
  over the wildcard subscribers.\<close>

definition Publish_locked :: "event \<Rightarrow> world \<Rightarrow> world" where
  "Publish_locked event w =
     fold (spawn_deliver event) (allSubscribers (eb w))
       (fold (spawn_deliver event) (lookup (subscribers (eb w)) (ev_type event)) w)"

definition Publish :: "event \<Rightarrow> world \<Rightarrow> world" where
  "Publish event w = (if shuttingDown (eb w) then w else Publish_locked event w)"

subsection \<open>SubscribeFunc\<close>

definition SubscribeFunc :: "string \<Rightarrow> world \<Rightarrow> world" where
  "SubscribeFunc eventType w =
     (case Subscribe eventType w of (ch, w') \<Rightarrow> spawn (Consume ch []) w')"

subsection \<open>Shutdown\<close>

fun close_all :: "chan_id list \<Rightarrow> chan list \<Rightarrow> chan list outcome" where
  "close_all [] h = Done h"
| "close_all (c # cs) h = and_then (chan_close c h) (close_all cs)"

text \<open>
  The channels the two closing loops visit: every channel of every entry of the typed
  map, then the wildcard ones.
\<close>

fun typed :: "(string \<times> chan_id list) list \<Rightarrow> chan_id list" where
  "typed [] = []"
| "typed ((k, subs) # m) = subs @ typed m"

definition registered :: "Broker \<Rightarrow> chan_id list" where
  "registered b = typed (subscribers b) @ allSubscribers b"

text \<open>
  The section under \<open>mu.Lock()\<close>: both closing loops. Go visits the entries of a map
  in no fixed order; a run of the loops that completes has closed the same channels
  whatever the order, and one that does not has panicked.
\<close>

definition Shutdown_locked :: "world \<Rightarrow> world outcome" where
  "Shutdown_locked w =
     and_then (close_all (registered (eb w)) (chans w)) (\<lambda>h. Done (w\<lparr>chans := h\<rparr>))"

definition store_shuttingDown :: "world \<Rightarrow> world" where
  "store_shuttingDown w = w\<lparr>eb := (eb w)\<lparr>shuttingDown := True\<rparr>\<rparr>"

text \<open>
  A call of \<open>Shutdown\<close> that no other goroutine interleaves with: \<open>wg.Wait()\<close> returns
  only on a zero counter, and nothing else runs to lower it.
\<close>

definition Shutdown :: "world \<Rightarrow> world outcome" where
  "Shutdown w =
     (if wg (eb (store_shuttingDown w)) = 0 then Shutdown_locked (store_shuttingDown w)
      else Blocked)"

subsection \<open>Interleaved execution\<close>

text \<open>One atomic step of goroutine \<open>i\<close>, which is at point \<open>g\<close>.\<close>

fun run :: "goroutine \<Rightarrow> nat \<Rightarrow> world \<Rightarrow> world outcome" where
  "run (Subscribe_enter t) i w =
     (if shuttingDown (eb w)
      then (case Subscribe_closed w of (ch, w') \<Rightarrow> Done (set_go i (Returned (Some ch)) w'))
      else Done (set_go i (Subscribe_register t) w))"
| "run (Subscribe_register t) i w =
     (case Subscribe_locked t w of (ch, w') \<Rightarrow> Done (set_go i (Returned (Some ch)) w'))"
| "run (SubscribeFunc_enter t) i w =
     (if shuttingDown (eb w)
      then (case Subscribe_closed w of
              (ch, w') \<Rightarrow> Done (set_go i (Returned None) (spawn (Consume ch []) w')))
      else Done (set_go i (SubscribeFunc_register t) w))"
| "run (SubscribeFunc_register t) i w =
     (case Subscribe_locked t w of
        (ch, w') \<Rightarrow> Done (set_go i (Returned None) (spawn (Consume ch []) w')))"
| "run (Publish_enter e) i w =
     (if shuttingDown (eb w) then Done (set_go i (Returned None) w)
      else Done (set_go i (Publish_dispatch e) w))"
| "run (Publish_dispatch e) i w = Done (set_go i (Returned None) (Publish_locked e w))"
| "run Shutdown_enter i w = Done (set_go i Shutdown_wait (store_shuttingDown w))"
| "run Shutdown_wait i w =
     (if wg (eb w) = 0 then Done (set_go i Shutdown_close w) else Blocked)"
| "run Shutdown_close i w =
     and_then (Shutdown_locked w) (\<lambda>w'. Done (set_go i (Returned None) w'))"
| "run (Deliver c e) i w =
     and_then (chan_send c e (chans w)) (\<lambda>h. Done (set_go i Deliver_done (w\<lparr>chans := h\<rparr>)))"
| "run Deliver_done i w =
     (if wg (eb w) - 1 < 0 then Fault Negative_WaitGroup
      else Done (set_go i (Returned None) (w\<lparr>eb := (eb w)\<lparr>wg := wg (eb w) - 1\<rparr>\<rparr>)))"
| "run (Consume c calls) i w =
     (case chan_recv c (chans w) of
        Received e h \<Rightarrow> Done (set_go i (Consume c (calls @ [e])) (w\<lparr>chans := h\<rparr>))
      | End_of_stream \<Rightarrow> Done (set_go i (Consume_exit calls) w)
      | Recv_blocked \<Rightarrow> Blocked)"
| "run (Consume_exit calls) i w = Blocked"
| "run (Returned r) i w = Blocked"

definition step :: "nat \<Rightarrow> world \<Rightarrow> world outcome" where
  "step i w = (if i < length (gos w) then run (gos w ! i) i w else Blocked)"

text \<open>
  A schedule: at each moment either some caller enters one of the four methods, or
  one of the goroutines takes its next step.
\<close>

datatype call = Call_Subscribe string | Call_SubscribeFunc string | Call_Publish event
  | Call_Shutdown

fun enter :: "call \<Rightarrow> goroutine" where
  "enter (Call_Subscribe t) = Subscribe_enter t"
| "enter (Call_SubscribeFunc t) = SubscribeFunc_enter t"
| "enter (Call_Publish e) = Publish_enter e"
| "enter Call_Shutdown = Shutdown_enter"

datatype action = Call call | Step nat

fun act :: "action \<Rightarrow> world \<Rightarrow> world outcome" where
  "act (Call c) w = Done (spawn (enter c) w)"
| "act (Step i) w = step i w"

fun exec :: "action list \<Rightarrow> world \<Rightarrow> world outcome" where
  "exec [] w = Done w"
| "exec (a # as) w = and_then (act a w) (exec as)"

subsection \<open>The outbound forwarder\<close>

text \<open>
  A sender is a procedure with an effect on some outer state \<open>'s\<close>; a context is either
  the background context or one derived from it by attaching a value.
\<close>

datatype ctx = Background | WithValue string string ctx

type_synonym 's CloudEventSender = "ctx \<Rightarrow> event \<Rightarrow> 's \<Rightarrow> 's"

definition CloudEventForwarder :: "'s CloudEventSender \<Rightarrow> event \<Rightarrow> 's \<Rightarrow> 's" where
  "CloudEventForwarder send = (\<lambda>e. send Background e)"

text \<open>A sender that also writes down every call made to it.\<close>

definition recording :: "'s CloudEventSender \<Rightarrow> ((ctx \<times> event) list \<times> 's) CloudEventSender"
  where
  "recording send ctx e = (\<lambda>(calls, s). (calls @ [(ctx, e)], send ctx e s))"

section \<open>Notions used to state the properties\<close>

text \<open>The channels \<open>Publish\<close> dispatches an event to: both loops, in order.\<close>

definition matching :: "Broker \<Rightarrow> event \<Rightarrow> chan_id list" where
  "matching b e = lookup (subscribers b) (ev_type e) @ allSubscribers b"

text \<open>
  The delivery goroutines \<open>Publish\<close> has just started occupy the last positions of the
  goroutine list. \<open>deliveries n k\<close> runs the \<open>k\<close> goroutines from position \<open>n\<close> on, each
  one to its end (the send, then \<open>wg.Done()\<close>); \<open>Publish_sync\<close> is a call of
  \<open>Publish\<close> followed at once by the goroutines it started, and \<open>publish_each\<close> a
  sequence of such calls.
\<close>

definition deliveries :: "nat \<Rightarrow> nat \<Rightarrow> action list" where
  "deliveries n k = concat (map (\<lambda>i. [Step i, Step i]) [n..<n + k])"

definition Publish_sync :: "event \<Rightarrow> world \<Rightarrow> world outcome" where
  "Publish_sync e w =
     exec (deliveries (length (gos w)) (length (gos (Publish e w)) - length (gos w))) (Publish e w)"


subsection \<open>An invariant of the reachable states\<close>

text \<open>
  \<open>counted\<close> marks the goroutines that hold one unit of the WaitGroup. The invariant
  says: every registered channel exists and is registered once; no entry of the typed
  map has the key \<open>*\<close>; the counter is the number of delivery goroutines that have not
  finished; and as long as \<open>shuttingDown\<close> is false, no registered channel is closed and
  no call of \<open>Shutdown\<close> is past its first statement.
\<close>

fun counted :: "goroutine \<Rightarrow> bool" where
  "counted (Deliver c e) = True"
| "counted Deliver_done = True"
| "counted _ = False"

definition wf_registry :: "world \<Rightarrow> bool" where
  "wf_registry w \<longleftrightarrow>
     (\<forall>c\<in>set (registered (eb w)). c < length (chans w))
     \<and> distinct (registered (eb w))
     \<and> ''*'' \<notin> fst ` set (subscribers (eb w))"

definition wf_wg :: "world \<Rightarrow> bool" where
  "wf_wg w \<longleftrightarrow> wg (eb w) = int (length (filter counted (gos w)))"

definition wf_open :: "world \<Rightarrow> bool" where
  "wf_open w \<longleftrightarrow>
     (\<not> shuttingDown (eb w) \<longrightarrow>
        (\<forall>c\<in>set (registered (eb w)). \<not> closed (chans w ! c))
        \<and> Shutdown_wait \<notin> set (gos w) \<and> Shutdown_close \<notin> set (gos w))"

definition wf :: "world \<Rightarrow> bool" where
  "wf w \<longleftrightarrow> wf_registry w \<and> wf_wg w \<and> wf_open w"

subsection \<open>The callback's calls\<close>

text \<open>
  \<open>calls_of\<close> reads the calls a consumer has made; the history of a consumer and its
  channel is these calls followed by what the channel still holds. \<open>sole_consumer\<close>
  says that goroutine \<open>i\<close> is the only consumer of channel \<open>ch\<close> (or has left its
  loop on the closed and drained channel); \<open>consumers_apart\<close> says that no two
  consumers share a channel.
\<close>

fun calls_of :: "goroutine \<Rightarrow> event list" where
  "calls_of (Consume c calls) = calls"
| "calls_of (Consume_exit calls) = calls"
| "calls_of _ = []"

fun consumes :: "chan_id \<Rightarrow> goroutine \<Rightarrow> bool" where
  "consumes ch (Consume c calls) = (c = ch)"
| "consumes ch _ = False"

fun exited :: "goroutine \<Rightarrow> bool" where
  "exited (Consume_exit calls) = True"
| "exited _ = False"

definition history :: "nat \<Rightarrow> chan_id \<Rightarrow> world \<Rightarrow> event list" where
  "history i ch w = calls_of (gos w ! i) @ buf (chans w ! ch)"

definition sole_consumer :: "nat \<Rightarrow> chan_id \<Rightarrow> world \<Rightarrow> bool" where
  "sole_consumer i ch w \<longleftrightarrow>
     i < length (gos w) \<and> ch < length (chans w)
     \<and> (consumes ch (gos w ! i)
         \<or> exited (gos w ! i) \<and> closed (chans w ! ch) \<and> buf (chans w ! ch) = [])
     \<and> (\<forall>j<length (gos w). j \<noteq> i \<longrightarrow> \<not> consumes ch (gos w ! j))"

definition consumers_apart :: "world \<Rightarrow> bool" where
  "consumers_apart w \<longleftrightarrow>
     (\<forall>i<length (gos w). \<forall>c. consumes c (gos w ! i) \<longrightarrow>
        c < length (chans w)
        \<and> (\<forall>j<length (gos w). j \<noteq> i \<longrightarrow> \<not> consumes c (gos w ! j)))"

subsection \<open>Concrete events and states\<close>

definition event_a1 :: event where
  "event_a1 = \<lparr>ev_id = ''e1'', ev_source = ''test'', ev_type = ''a'', ev_data = ''first''\<rparr>"

definition event_a2 :: event where
  "event_a2 = \<lparr>ev_id = ''e2'', ev_source = ''test'', ev_type = ''a'', ev_data = ''second''\<rparr>"

definition event_star :: event where
  "event_star = \<lparr>ev_id = ''e3'', ev_source = ''test'', ev_type = ''*'', ev_data = ''third''\<rparr>"

definition open_chan :: "event list \<Rightarrow> chan" where
  "open_chan es = \<lparr>buf = es, cap = 10, closed = False\<rparr>"

text \<open>Subscriptions to \<open>a\<close>, \<open>b\<close> and the wildcard, in this order.\<close>

definition scenario_B :: world where
  "scenario_B = snd (Subscribe ''*'' (snd (Subscribe ''b'' (snd (Subscribe ''a'' NewBroker)))))"

text \<open>The state after one subscription to \<open>a\<close> and a completed \<open>Shutdown\<close>.\<close>

definition scenario_D :: world where
  "scenario_D =
     \<lparr>eb = \<lparr>subscribers = [(''a'', [0])], allSubscribers = [], wg = 0, shuttingDown = True\<rparr>,
      chans = [\<lparr>buf = [], cap = 10, closed = True\<rparr>], gos = []\<rparr>"

text \<open>
  The state after a caller of \<open>SubscribeFunc\<close> on \<open>a\<close>, two callers of \<open>Publish\<close>
  whose events were delivered, and a caller of \<open>Shutdown\<close>, each run to its end in
  turn; the consumer (goroutine 1) has not run yet.
\<close>

definition scenario_F :: world where
  "scenario_F =
     \<lparr>eb = \<lparr>subscribers = [(''a'', [0])], allSubscribers = [], wg = 0, shuttingDown = True\<rparr>,
      chans = [\<lparr>buf = [event_a1, event_a2], cap = 10, closed = True\<rparr>],
      gos = [Returned None, Consume 0 [], Returned None, Returned None, Returned None,
             Returned None, Returned None]\<rparr>"



text \<open>The state after two callers subscribed, one to the wildcard and one to \<open>a\<close>.\<close>

definition scenario_W :: world where
  "scenario_W =
     \<lparr>eb = \<lparr>subscribers = [(''a'', [1])], allSubscribers = [0], wg = 0, shuttingDown = False\<rparr>,
      chans = [open_chan [], open_chan []],
      gos = [Returned (Some 0), Returned (Some 1)]\<rparr>"

section \<open>Basic facts\<close>

lemma and_then_Done_iff:
  "and_then r f = Done y \<longleftrightarrow> (\<exists>x. r = Done x \<and> f x = Done y)"
  by (cases r) simp_all

lemma set_go_simps [simp]:
  "eb (set_go i g w) = eb w" "chans (set_go i g w) = chans w"
  "gos (set_go i g w) = (gos w)[i := g]"
  by (simp_all add: set_go_def)

lemma spawn_simps [simp]:
  "eb (spawn g w) = eb w" "chans (spawn g w) = chans w" "gos (spawn g w) = gos w @ [g]"
  by (simp_all add: spawn_def)

lemma fold_spawn_deliver:
  "fold (spawn_deliver e) cs w =
     w\<lparr>eb := (eb w)\<lparr>wg := wg (eb w) + int (length cs)\<rparr>,
       gos := gos w @ map (\<lambda>c. Deliver c e) cs\<rparr>"
  by (induction cs arbitrary: w) (simp_all add: spawn_deliver_def spawn_def)

lemma Publish_locked_eq:
  "Publish_locked e w =
     w\<lparr>eb := (eb w)\<lparr>wg := wg (eb w) + int (length (matching (eb w) e))\<rparr>,
       gos := gos w @ map (\<lambda>c. Deliver c e) (matching (eb w) e)\<rparr>"
  by (simp add: Publish_locked_def fold_spawn_deliver matching_def)

lemma length_push [simp]: "length (push e c h) = length h"
  by (simp add: push_def)

lemma nth_push:
  "d < length h \<Longrightarrow> push e c h ! d = (if d = c then (h ! d)\<lparr>buf := buf (h ! d) @ [e]\<rparr> else h ! d)"
  by (simp add: push_def)

lemma length_fold_push [simp]: "length (fold (push e) cs h) = length h"
  by (induction cs arbitrary: h) simp_all

lemma fold_push_nth:
  "distinct cs \<Longrightarrow> d < length h \<Longrightarrow>
   fold (push e) cs h ! d = (if d \<in> set cs then (h ! d)\<lparr>buf := buf (h ! d) @ [e]\<rparr> else h ! d)"
proof (induction cs arbitrary: h)
  case Nil
  then show ?case by simp
next
  case (Cons c cs)
  then show ?case by (auto simp: nth_push)
qed

lemma deliveries_Suc: "deliveries n (Suc k) = Step n # Step n # deliveries (Suc n) k"
  by (simp add: deliveries_def upt_conv_Cons)

lemma deliver_run:
  assumes "gos w = pre @ map (\<lambda>c. Deliver c e) cs" and "distinct cs"
    and "\<forall>c\<in>set cs. c < length (chans w) \<and> \<not> closed (chans w ! c)
            \<and> length (buf (chans w ! c)) < cap (chans w ! c)"
    and "int (length cs) \<le> wg (eb w)"
  shows "exec (deliveries (length pre) (length cs)) w =
     Done (w\<lparr>eb := (eb w)\<lparr>wg := wg (eb w) - int (length cs)\<rparr>,
             chans := fold (push e) cs (chans w),
             gos := pre @ replicate (length cs) (Returned None)\<rparr>)"
  using assms
proof (induction cs arbitrary: w pre)
  case Nil
  then show ?case by (simp add: deliveries_def)
next
  case (Cons c cs)
  let ?n = "length pre"
  let ?w1 = "set_go ?n Deliver_done (w\<lparr>chans := push e c (chans w)\<rparr>)"
  let ?w2 = "set_go ?n (Returned None) (?w1\<lparr>eb := (eb ?w1)\<lparr>wg := wg (eb ?w1) - 1\<rparr>\<rparr>)"
  have n: "?n < length (gos w)" "gos w ! ?n = Deliver c e"
    using Cons.prems(1) by simp_all
  have c: "c < length (chans w)" "\<not> closed (chans w ! c)"
    "length (buf (chans w ! c)) < cap (chans w ! c)"
    using Cons.prems(3) by simp_all
  have s1: "step ?n w = Done ?w1"
    using n c by (simp add: step_def chan_send_def)
  have s2: "step ?n ?w1 = Done ?w2"
    using n Cons.prems(4) by (simp add: step_def)
  have g2: "gos ?w2 = (pre @ [Returned None]) @ map (\<lambda>c. Deliver c e) cs"
    using Cons.prems(1) by (simp add: list_update_append)
  have r2: "\<forall>d\<in>set cs. d < length (chans ?w2) \<and> \<not> closed (chans ?w2 ! d)
            \<and> length (buf (chans ?w2 ! d)) < cap (chans ?w2 ! d)"
    using Cons.prems(2,3) by (auto simp: nth_push)
  have w2: "int (length cs) \<le> wg (eb ?w2)" using Cons.prems(4) by simp
  have d2: "distinct cs" using Cons.prems(2) by simp
  have "exec (deliveries (length (pre @ [Returned None])) (length cs)) ?w2 =
     Done (?w2\<lparr>eb := (eb ?w2)\<lparr>wg := wg (eb ?w2) - int (length cs)\<rparr>,
             chans := fold (push e) cs (chans ?w2),
             gos := (pre @ [Returned None]) @ replicate (length cs) (Returned None)\<rparr>)"
    by (rule Cons.IH [OF g2 d2 r2 w2])
  then show ?case
    using s1 s2 by (simp add: deliveries_Suc replicate_app_Cons_same)
qed

subsection \<open>The typed map\<close>

lemma lookup_subset: "set (lookup m k) \<subseteq> set (typed m)"
  by (induction m) (auto split: if_splits)

lemma lookup_distinct: "distinct (typed m) \<Longrightarrow> distinct (lookup m k)"
  by (induction m) auto

lemma lookup_disjoint:
  "distinct (typed m) \<Longrightarrow> k \<noteq> k' \<Longrightarrow> set (lookup m k) \<inter> set (lookup m k') = {}"
proof (induction m)
  case Nil
  then show ?case by simp
next
  case (Cons a m)
  obtain k0 v where a: "a = (k0, v)" by (cases a)
  have v: "set v \<inter> set (typed m) = {}" using Cons.prems(1) a by auto
  show ?case
  proof (cases "k = k0")
    case True
    then have "lookup (a # m) k = v" "lookup (a # m) k' = lookup m k'"
      using a Cons.prems(2) by auto
    then show ?thesis using v lookup_subset [of m k'] by auto
  next
    case False
    show ?thesis
    proof (cases "k' = k0")
      case True
      then have "lookup (a # m) k' = v" "lookup (a # m) k = lookup m k"
        using a Cons.prems(2) by auto
      then show ?thesis using v lookup_subset [of m k] by auto
    next
      case False
      with \<open>k \<noteq> k0\<close> have "lookup (a # m) k' = lookup m k'" "lookup (a # m) k = lookup m k"
        using a by auto
      then show ?thesis using Cons a by auto
    qed
  qed
qed

lemma set_assign:
  "set (typed (assign m k (lookup m k @ [ch]))) = insert ch (set (typed m))"
proof (induction m)
  case Nil
  then show ?case by simp
next
  case (Cons a m)
  obtain k0 v where a: "a = (k0, v)" by (cases a)
  show ?case using Cons a by (cases "k = k0") auto
qed

lemma distinct_assign:
  "distinct (typed m) \<Longrightarrow> ch \<notin> set (typed m) \<Longrightarrow>
   distinct (typed (assign m k (lookup m k @ [ch])))"
proof (induction m)
  case Nil
  then show ?case by simp
next
  case (Cons a m)
  obtain k0 v where a: "a = (k0, v)" by (cases a)
  show ?case using Cons a by (cases "k = k0") (auto simp: set_assign)
qed

lemma keys_assign: "fst ` set (assign m k v) = insert k (fst ` set m)"
proof (induction m)
  case Nil
  then show ?case by simp
next
  case (Cons a m)
  obtain k0 v0 where a: "a = (k0, v0)" by (cases a)
  show ?case using Cons a by (cases "k = k0") auto
qed

lemma matching_subset: "set (matching b e) \<subseteq> set (registered b)"
  using lookup_subset by (auto simp: matching_def registered_def)

lemma matching_distinct: "distinct (registered b) \<Longrightarrow> distinct (matching b e)"
  using lookup_subset [of "subscribers b" "ev_type e"]
  by (auto simp: matching_def registered_def lookup_distinct)

lemma filter_update_nat:
  "i < length xs \<Longrightarrow>
   length (filter P (xs[i := g])) + (if P (xs ! i) then 1 else 0) =
     length (filter P xs) + (if P g then 1 else 0)"
proof (induction xs arbitrary: i)
  case Nil
  then show ?case by simp
next
  case (Cons x xs)
  show ?case
  proof (cases i)
    case 0
    then show ?thesis by simp
  next
    case (Suc n)
    then have "n < length xs" using Cons.prems by simp
    from Cons.IH [OF this] show ?thesis using Suc by simp
  qed
qed

lemma filter_update_len:
  "i < length xs \<Longrightarrow>
   int (length (filter P (xs[i := g]))) =
     int (length (filter P xs)) - (if P (xs ! i) then 1 else 0) + (if P g then 1 else 0)"
  using filter_update_nat [of i xs P g] by (simp split: if_splits)

lemma lookup_missing: "k \<notin> fst ` set m \<Longrightarrow> lookup m k = []"
  by (induction m) auto

subsection \<open>Closing and receiving\<close>

lemma close_all_Done:
  "close_all cs h = Done h' \<Longrightarrow>
     length h' = length h \<and> (\<forall>c\<in>set cs. c < length h \<and> closed (h' ! c))
     \<and> (\<forall>c<length h. closed (h ! c) \<longrightarrow> closed (h' ! c))"
proof (induction cs arbitrary: h)
  case Nil
  then show ?case by simp
next
  case (Cons c cs)
  from Cons.prems obtain h1 where c: "chan_close c h = Done h1" and r: "close_all cs h1 = Done h'"
    by (auto simp: and_then_Done_iff)
  from c have c1: "c < length h" "\<not> closed (h ! c)" and h1: "h1 = h[c := (h ! c)\<lparr>closed := True\<rparr>]"
    by (auto simp: chan_close_def split: if_splits)
  from Cons.IH [OF r] have ih: "length h' = length h1" "\<forall>d\<in>set cs. d < length h1 \<and> closed (h' ! d)"
    "\<forall>d<length h1. closed (h1 ! d) \<longrightarrow> closed (h' ! d)" by auto
  have len: "length h1 = length h" by (simp add: h1)
  have "closed (h1 ! c)" using c1 by (simp add: h1)
  then have "closed (h' ! c)" using ih(3) c1 len by simp
  moreover have "\<forall>d<length h. closed (h ! d) \<longrightarrow> closed (h' ! d)"
  proof (intro allI impI)
    fix d assume d: "d < length h" "closed (h ! d)"
    then have "closed (h1 ! d)" by (cases "d = c") (simp_all add: h1)
    then show "closed (h' ! d)" using ih(3) d len by simp
  qed
  ultimately show ?case using ih c1 len by auto
qed

lemma Shutdown_locked_Done:
  assumes "Shutdown_locked w = Done w'"
  shows "eb w' = eb w" "gos w' = gos w" "length (chans w') = length (chans w)"
proof -
  from assms obtain h where h: "close_all (registered (eb w)) (chans w) = Done h"
    and w': "w' = w\<lparr>chans := h\<rparr>"
    by (auto simp: Shutdown_locked_def and_then_Done_iff)
  show "eb w' = eb w" "gos w' = gos w" by (simp_all add: w')
  show "length (chans w') = length (chans w)" using close_all_Done [OF h] by (simp add: w')
qed

lemma chan_send_Done:
  "chan_send c e h = Done h' \<Longrightarrow> h' = push e c h \<and> c < length h"
  by (auto simp: chan_send_def split: if_splits)

lemma closed_push: "d < length h \<Longrightarrow> closed (push e c h ! d) = closed (h ! d)"
  by (simp add: nth_push)

lemma chan_recv_Received:
  "chan_recv c h = Received e h' \<Longrightarrow>
     length h' = length h \<and> (\<forall>d<length h. closed (h' ! d) = closed (h ! d))"
  by (auto simp: chan_recv_def nth_list_update split: if_splits list.splits)

lemma close_all_closed_head:
  "c < length h \<Longrightarrow> closed (h ! c) \<Longrightarrow> close_all (c # cs) h = Fault Close_of_closed"
  by (simp add: chan_close_def)

lemma consume_run:
  "i < length (gos v) \<Longrightarrow> gos v ! i = Consume ch calls \<Longrightarrow> ch < length (chans v) \<Longrightarrow>
   buf (chans v ! ch) = xs \<Longrightarrow>
   exec (replicate (length xs) (Step i)) v =
     Done (set_go i (Consume ch (calls @ xs))
            (v\<lparr>chans := (chans v)[ch := (chans v ! ch)\<lparr>buf := []\<rparr>]\<rparr>))"
proof (induction xs arbitrary: v calls)
  case Nil
  have "(chans v ! ch)\<lparr>buf := []\<rparr> = chans v ! ch" using Nil by simp
  moreover have "(gos v)[i := Consume ch calls] = gos v" using Nil by (metis list_update_id)
  ultimately show ?case by (simp add: set_go_def)
next
  case (Cons x xs)
  let ?v1 = "set_go i (Consume ch (calls @ [x])) (v\<lparr>chans := (chans v)[ch := (chans v ! ch)\<lparr>buf := xs\<rparr>]\<rparr>)"
  have s: "step i v = Done ?v1"
    using Cons.prems by (simp add: step_def chan_recv_def)
  have "exec (replicate (length xs) (Step i)) ?v1 =
     Done (set_go i (Consume ch ((calls @ [x]) @ xs))
            (?v1\<lparr>chans := (chans ?v1)[ch := (chans ?v1 ! ch)\<lparr>buf := []\<rparr>]\<rparr>))"
    by (rule Cons.IH) (use Cons.prems in \<open>simp_all add: set_go_def\<close>)
  then show ?case using s Cons.prems by (simp add: set_go_def)
qed

section \<open>The invariant holds in every reachable state\<close>

lemma Subscribe_closed_simps [simp]:
  "fst (Subscribe_closed w) = length (chans w)"
  "eb (snd (Subscribe_closed w)) = eb w"
  "gos (snd (Subscribe_closed w)) = gos w"
  "chans (snd (Subscribe_closed w)) = chans w @ [\<lparr>buf = [], cap = 0, closed = True\<rparr>]"
  by (simp_all add: Subscribe_closed_def make_chan_def)

lemma Subscribe_locked_simps [simp]:
  "fst (Subscribe_locked t w) = length (chans w)"
  "gos (snd (Subscribe_locked t w)) = gos w"
  "chans (snd (Subscribe_locked t w)) = chans w @ [\<lparr>buf = [], cap = 10, closed = False\<rparr>]"
  "wg (eb (snd (Subscribe_locked t w))) = wg (eb w)"
  "shuttingDown (eb (snd (Subscribe_locked t w))) = shuttingDown (eb w)"
  by (simp_all add: Subscribe_locked_def make_chan_def)

lemma Subscribe_locked_registry:
  "allSubscribers (eb (snd (Subscribe_locked t w))) =
     (if t = ''*'' then allSubscribers (eb w) @ [length (chans w)] else allSubscribers (eb w))"
  "subscribers (eb (snd (Subscribe_locked t w))) =
     (if t = ''*'' then subscribers (eb w)
      else assign (subscribers (eb w)) t (lookup (subscribers (eb w)) t @ [length (chans w)]))"
  by (simp_all add: Subscribe_locked_def make_chan_def)

lemma registered_Subscribe_locked:
  "set (registered (eb (snd (Subscribe_locked t w)))) = insert (length (chans w)) (set (registered (eb w)))"
  by (auto simp: registered_def Subscribe_locked_registry set_assign)

lemma wf_registry_Subscribe_locked:
  assumes "wf_registry w"
  shows "wf_registry (snd (Subscribe_locked t w))"
proof -
  let ?n = "length (chans w)"
  from assms have b: "\<forall>c\<in>set (registered (eb w)). c < ?n" and d: "distinct (registered (eb w))"
    and s: "''*'' \<notin> fst ` set (subscribers (eb w))"
    by (simp_all add: wf_registry_def)
  from b have fresh: "?n \<notin> set (registered (eb w))" by auto
  have "distinct (registered (eb (snd (Subscribe_locked t w))))"
  proof (cases "t = ''*''")
    case True
    then show ?thesis using d fresh by (simp add: registered_def Subscribe_locked_registry)
  next
    case False
    have "distinct (typed (assign (subscribers (eb w)) t (lookup (subscribers (eb w)) t @ [?n])))"
      using d fresh by (intro distinct_assign) (simp_all add: registered_def)
    then show ?thesis using False d fresh
      by (auto simp: registered_def Subscribe_locked_registry set_assign)
  qed
  moreover have "\<forall>c\<in>set (registered (eb (snd (Subscribe_locked t w)))). c < length (chans (snd (Subscribe_locked t w)))"
    using b by (auto simp: registered_Subscribe_locked less_Suc_eq)
  moreover have "''*'' \<notin> fst ` set (subscribers (eb (snd (Subscribe_locked t w))))"
    using s by (simp add: Subscribe_locked_registry keys_assign)
  ultimately show ?thesis by (simp add: wf_registry_def)
qed

lemma wf_open_Subscribe_locked:
  assumes "wf_open w" "wf_registry w"
  shows "wf_open (snd (Subscribe_locked t w))"
proof -
  have b: "\<forall>c\<in>set (registered (eb w)). c < length (chans w)"
    using assms(2) by (simp add: wf_registry_def)
  show ?thesis
    using assms(1) b
    by (auto simp: wf_open_def registered_Subscribe_locked nth_append)
qed

lemma gos_Subscribe [simp]: "gos (snd (Subscribe t w)) = gos w"
  by (simp add: Subscribe_def)

lemma wf_registry_frame:
  assumes "wf_registry w" "subscribers (eb w') = subscribers (eb w)"
    "allSubscribers (eb w') = allSubscribers (eb w)" "length (chans w) \<le> length (chans w')"
  shows "wf_registry w'"
proof -
  have r: "registered (eb w') = registered (eb w)" using assms(2,3) by (simp add: registered_def)
  have "\<forall>c\<in>set (registered (eb w)). c < length (chans w')"
    using assms(1,4) by (auto simp: wf_registry_def)
  then show ?thesis using assms(1,2) unfolding wf_registry_def r by simp
qed

lemma wf_open_frame:
  assumes "wf_open w" "wf_registry w" "subscribers (eb w') = subscribers (eb w)"
    "allSubscribers (eb w') = allSubscribers (eb w)"
    "shuttingDown (eb w) \<longrightarrow> shuttingDown (eb w')"
    "\<forall>c<length (chans w). closed (chans w' ! c) = closed (chans w ! c)"
    "Shutdown_wait \<in> set (gos w') \<longrightarrow> Shutdown_wait \<in> set (gos w)"
    "Shutdown_close \<in> set (gos w') \<longrightarrow> Shutdown_close \<in> set (gos w)"
  shows "wf_open w'"
proof -
  have r: "registered (eb w') = registered (eb w)" using assms(3,4) by (simp add: registered_def)
  have b: "\<forall>c\<in>set (registered (eb w)). c < length (chans w)"
    using assms(2) by (simp add: wf_registry_def)
  show ?thesis using assms(1,5-8) b unfolding wf_open_def r by auto
qed

lemma in_set_update:
  "x \<in> set (xs[i := g]) \<Longrightarrow> x \<noteq> g \<Longrightarrow> x \<in> set xs"
  using set_update_subset_insert [of xs i g] by auto

lemma wf_wg_update:
  assumes "wf_wg w" "i < length (gos w)" "eb w' = eb w" "gos w' = (gos w)[i := g]"
    "counted g = counted (gos w ! i)"
  shows "wf_wg w'"
  using assms by (simp add: wf_wg_def filter_update_len)

lemma wf_NewBroker: "wf NewBroker"
  by (simp add: wf_def wf_registry_def wf_wg_def wf_open_def NewBroker_def registered_def)

lemma wf_set_go:
  assumes "wf w" "i < length (gos w)" "counted g = counted (gos w ! i)"
    "g = Shutdown_wait \<or> g = Shutdown_close \<longrightarrow> shuttingDown (eb w)"
  shows "wf (set_go i g w)"
proof -
  have "wf_registry (set_go i g w)"
    by (rule wf_registry_frame [of w]) (use assms(1) in \<open>simp_all add: wf_def\<close>)
  moreover have "wf_wg (set_go i g w)"
    by (rule wf_wg_update [of w i _ g]) (use assms(1-3) in \<open>simp_all add: wf_def\<close>)
  moreover have "wf_open (set_go i g w)"
  proof (cases "shuttingDown (eb w)")
    case True
    then show ?thesis by (simp add: wf_open_def)
  next
    case False
    then have ne: "g \<noteq> Shutdown_wait" "g \<noteq> Shutdown_close" using assms(4) by auto
    show ?thesis
      by (rule wf_open_frame [of w]) (use assms(1) ne in \<open>auto simp: wf_def dest: in_set_update\<close>)
  qed
  ultimately show ?thesis by (simp add: wf_def)
qed

lemma wf_spawn:
  assumes "wf w" "\<not> counted g" "g \<noteq> Shutdown_wait" "g \<noteq> Shutdown_close"
  shows "wf (spawn g w)"
proof -
  have "wf_registry (spawn g w)"
    by (rule wf_registry_frame [of w]) (use assms(1) in \<open>simp_all add: wf_def\<close>)
  moreover have "wf_wg (spawn g w)"
    using assms(1,2) by (simp add: wf_wg_def wf_def)
  moreover have "wf_open (spawn g w)"
    by (rule wf_open_frame [of w]) (use assms in \<open>auto simp: wf_def\<close>)
  ultimately show ?thesis by (simp add: wf_def)
qed

lemma wf_Subscribe_closed:
  assumes "wf w"
  shows "wf (snd (Subscribe_closed w))"
proof -
  have "wf_registry (snd (Subscribe_closed w))"
    by (rule wf_registry_frame [of w]) (use assms in \<open>simp_all add: wf_def\<close>)
  moreover have "wf_wg (snd (Subscribe_closed w))"
    using assms by (simp add: wf_wg_def wf_def)
  moreover have "wf_open (snd (Subscribe_closed w))"
    by (rule wf_open_frame [of w]) (use assms in \<open>auto simp: wf_def nth_append\<close>)
  ultimately show ?thesis by (simp add: wf_def)
qed

lemma wf_Subscribe_locked:
  assumes "wf w"
  shows "wf (snd (Subscribe_locked t w))"
proof -
  have "wf_wg (snd (Subscribe_locked t w))"
    using assms by (simp add: wf_wg_def wf_def)
  then show ?thesis
    using assms wf_registry_Subscribe_locked wf_open_Subscribe_locked by (simp add: wf_def)
qed

lemma wf_Subscribe: "wf w \<Longrightarrow> wf (snd (Subscribe t w))"
  by (simp add: Subscribe_def wf_Subscribe_closed wf_Subscribe_locked)

lemma wf_SubscribeFunc: "wf w \<Longrightarrow> wf (SubscribeFunc t w)"
  by (simp add: SubscribeFunc_def case_prod_beta wf_Subscribe wf_spawn)

lemma Publish_locked_simps [simp]:
  "chans (Publish_locked e w) = chans w"
  "subscribers (eb (Publish_locked e w)) = subscribers (eb w)"
  "allSubscribers (eb (Publish_locked e w)) = allSubscribers (eb w)"
  "shuttingDown (eb (Publish_locked e w)) = shuttingDown (eb w)"
  "wg (eb (Publish_locked e w)) = wg (eb w) + int (length (matching (eb w) e))"
  "gos (Publish_locked e w) = gos w @ map (\<lambda>c. Deliver c e) (matching (eb w) e)"
  by (simp_all add: Publish_locked_eq)

lemma filter_counted_Deliver:
  "filter counted (map (\<lambda>c. Deliver c e) cs) = map (\<lambda>c. Deliver c e) cs"
  by (induction cs) simp_all

lemma wf_Publish_locked:
  assumes "wf w"
  shows "wf (Publish_locked e w)"
proof -
  have "wf_registry (Publish_locked e w)"
    by (rule wf_registry_frame [of w]) (use assms in \<open>simp_all add: wf_def\<close>)
  moreover have "wf_wg (Publish_locked e w)"
    using assms by (simp add: wf_wg_def wf_def filter_counted_Deliver)
  moreover have "wf_open (Publish_locked e w)"
    by (rule wf_open_frame [of w]) (use assms in \<open>auto simp: wf_def\<close>)
  ultimately show ?thesis by (simp add: wf_def)
qed


lemma store_simps [simp]:
  "chans (store_shuttingDown w) = chans w" "gos (store_shuttingDown w) = gos w"
  "subscribers (eb (store_shuttingDown w)) = subscribers (eb w)"
  "allSubscribers (eb (store_shuttingDown w)) = allSubscribers (eb w)"
  "wg (eb (store_shuttingDown w)) = wg (eb w)"
  "shuttingDown (eb (store_shuttingDown w))"
  by (simp_all add: store_shuttingDown_def)

lemma wf_store:
  assumes "wf w"
  shows "wf (store_shuttingDown w)"
proof -
  have "wf_registry (store_shuttingDown w)"
    by (rule wf_registry_frame [of w]) (use assms in \<open>simp_all add: wf_def\<close>)
  moreover have "wf_wg (store_shuttingDown w)"
    using assms by (simp add: wf_wg_def wf_def)
  moreover have "wf_open (store_shuttingDown w)"
    by (simp add: wf_open_def)
  ultimately show ?thesis by (simp add: wf_def)
qed

lemma wf_Shutdown_locked:
  assumes "wf w" "shuttingDown (eb w)" "Shutdown_locked w = Done w'"
  shows "wf w'"
proof -
  note d = Shutdown_locked_Done [OF assms(3)]
  have "wf_registry w'"
    by (rule wf_registry_frame [of w]) (use assms(1) d in \<open>simp_all add: wf_def\<close>)
  moreover have "wf_wg w'"
    using assms(1) d by (simp add: wf_wg_def wf_def)
  moreover have "wf_open w'"
    using assms(2) d by (simp add: wf_open_def)
  ultimately show ?thesis by (simp add: wf_def)
qed

lemma wf_Shutdown: "wf w \<Longrightarrow> Shutdown w = Done w' \<Longrightarrow> wf w'"
  using wf_Shutdown_locked [of "store_shuttingDown w" w'] wf_store [of w]
  by (simp add: Shutdown_def split: if_splits)

lemma wf_chans_frame:
  assumes "wf w" "length h = length (chans w)"
    "\<forall>d<length (chans w). closed (h ! d) = closed (chans w ! d)"
  shows "wf (w\<lparr>chans := h\<rparr>)"
proof -
  have "wf_registry (w\<lparr>chans := h\<rparr>)"
    by (rule wf_registry_frame [of w]) (use assms in \<open>simp_all add: wf_def\<close>)
  moreover have "wf_wg (w\<lparr>chans := h\<rparr>)"
    using assms by (simp add: wf_wg_def wf_def)
  moreover have "wf_open (w\<lparr>chans := h\<rparr>)"
    by (rule wf_open_frame [of w]) (use assms in \<open>auto simp: wf_def\<close>)
  ultimately show ?thesis by (simp add: wf_def)
qed

lemma wf_Deliver_done:
  assumes "wf w" "i < length (gos w)" "gos w ! i = Deliver_done"
  shows "wf (set_go i (Returned None) (w\<lparr>eb := (eb w)\<lparr>wg := wg (eb w) - 1\<rparr>\<rparr>))"
    and "0 < wg (eb w)"
proof -
  let ?w' = "set_go i (Returned None) (w\<lparr>eb := (eb w)\<lparr>wg := wg (eb w) - 1\<rparr>\<rparr>)"
  have "wf_registry ?w'"
    by (rule wf_registry_frame [of w]) (use assms in \<open>simp_all add: wf_def\<close>)
  moreover have "wf_wg ?w'"
    using assms by (simp add: wf_wg_def wf_def filter_update_len)
  moreover have "wf_open ?w'"
    by (rule wf_open_frame [of w]) (use assms in \<open>auto simp: wf_def dest: in_set_update\<close>)
  ultimately show "wf ?w'" by (simp add: wf_def)
  have "Deliver_done \<in> set (filter counted (gos w))"
    using assms(2,3) nth_mem [of i "gos w"] by simp
  then have "filter counted (gos w) \<noteq> []" by (metis empty_iff empty_set)
  then have "0 < length (filter counted (gos w))" by simp
  then show "0 < wg (eb w)" using assms(1) by (simp add: wf_def wf_wg_def)
qed

lemma wf_run:
  assumes "wf w" "i < length (gos w)" "run (gos w ! i) i w = Done w'"
  shows "wf w'"
proof (cases "gos w ! i")
  case (Subscribe_enter t)
  then show ?thesis using assms
    by (auto simp: case_prod_beta wf_set_go wf_Subscribe_closed split: if_splits)
next
  case (Subscribe_register t)
  then show ?thesis using assms
    by (auto simp: case_prod_beta wf_set_go wf_Subscribe_locked split: if_splits)
next
  case (SubscribeFunc_enter t)
  then show ?thesis using assms
    by (auto simp: case_prod_beta wf_set_go wf_Subscribe_closed wf_spawn nth_append split: if_splits)
next
  case (SubscribeFunc_register t)
  then show ?thesis using assms
    by (auto simp: case_prod_beta wf_set_go wf_Subscribe_locked wf_spawn nth_append split: if_splits)
next
  case (Publish_enter e)
  then show ?thesis using assms
    by (auto simp: wf_set_go split: if_splits)
next
  case (Publish_dispatch e)
  then show ?thesis using assms
    by (auto simp: wf_set_go wf_Publish_locked nth_append split: if_splits)
next
  case Shutdown_enter
  then show ?thesis using assms
    by (auto simp: wf_set_go wf_store)
next
  case Shutdown_wait
  have "shuttingDown (eb w)"
    using assms(1,2) Shutdown_wait by (auto simp: wf_def wf_open_def dest: nth_mem)
  then show ?thesis using assms Shutdown_wait
    by (auto simp: wf_set_go split: if_splits)
next
  case Shutdown_close
  have s: "shuttingDown (eb w)"
    using assms(1,2) Shutdown_close by (auto simp: wf_def wf_open_def dest: nth_mem)
  from assms(3) Shutdown_close obtain w1 where w1: "Shutdown_locked w = Done w1"
    and w': "w' = set_go i (Returned None) w1"
    by (auto simp: and_then_Done_iff)
  have "wf w1" by (rule wf_Shutdown_locked [OF assms(1) s w1])
  then show ?thesis
    using Shutdown_locked_Done [OF w1] assms(2) Shutdown_close by (simp add: w' wf_set_go)
next
  case (Deliver c e)
  from assms(3) Deliver obtain h where h: "chan_send c e (chans w) = Done h"
    and w': "w' = set_go i Deliver_done (w\<lparr>chans := h\<rparr>)"
    by (auto simp: and_then_Done_iff)
  have "wf (w\<lparr>chans := h\<rparr>)"
    by (rule wf_chans_frame) (use chan_send_Done [OF h] assms(1) in \<open>simp_all add: closed_push\<close>)
  then show ?thesis using assms(2) Deliver by (simp add: w' wf_set_go)
next
  case Deliver_done
  then show ?thesis using assms wf_Deliver_done(1) [of w i]
    by (auto split: if_splits)
next
  case (Consume c calls)
  show ?thesis
  proof (cases "chan_recv c (chans w)")
    case (Received e h)
    have "wf (w\<lparr>chans := h\<rparr>)"
      by (rule wf_chans_frame) (use chan_recv_Received [OF Received] assms(1) in \<open>simp_all\<close>)
    then show ?thesis using assms Consume Received by (auto simp: wf_set_go)
  next
    case End_of_stream
    then show ?thesis using assms Consume by (auto simp: wf_set_go)
  next
    case Recv_blocked
    then show ?thesis using assms Consume by simp
  qed
next
  case (Consume_exit calls)
  then show ?thesis using assms by simp
next
  case (Returned r)
  then show ?thesis using assms by simp
qed

lemma wf_act: "wf w \<Longrightarrow> act a w = Done w' \<Longrightarrow> wf w'"
proof (cases a)
  case (Call c)
  assume "wf w" "act a w = Done w'"
  then show ?thesis using Call by (cases c) (auto simp: wf_spawn)
next
  case (Step i)
  assume "wf w" "act a w = Done w'"
  then show ?thesis using Step wf_run [of w i w'] by (auto simp: step_def split: if_splits)
qed

lemma wf_exec: "wf w \<Longrightarrow> exec as w = Done w' \<Longrightarrow> wf w'"
proof (induction as arbitrary: w)
  case Nil
  then show ?case by simp
next
  case (Cons a as)
  then show ?case by (auto simp: and_then_Done_iff dest: wf_act)
qed

lemma wf_reachable: "exec sched NewBroker = Done w \<Longrightarrow> wf w"
  using wf_exec [OF wf_NewBroker] .

subsection \<open>The flag is never cleared\<close>

lemma shuttingDown_run:
  assumes "shuttingDown (eb w)" "run g i w = Done w'"
  shows "shuttingDown (eb w')"
proof (cases g)
  case Shutdown_close
  with assms obtain w1 where "Shutdown_locked w = Done w1" "w' = set_go i (Returned None) w1"
    by (auto simp: and_then_Done_iff)
  then show ?thesis using assms(1) Shutdown_locked_Done(1) [of w w1] by simp
next
  case (Consume c calls)
  then show ?thesis using assms by (cases "chan_recv c (chans w)") auto
qed (use assms in \<open>auto simp: case_prod_beta and_then_Done_iff split: if_splits\<close>)

lemma shuttingDown_act:
  assumes "shuttingDown (eb w)" "act a w = Done w'"
  shows "shuttingDown (eb w')"
proof (cases a)
  case (Call c)
  then show ?thesis using assms by auto
next
  case (Step i)
  then show ?thesis using assms shuttingDown_run [of w "gos w ! i" i w']
    by (auto simp: step_def split: if_splits)
qed

lemma shuttingDown_exec:
  "shuttingDown (eb w) \<Longrightarrow> exec as w = Done w' \<Longrightarrow> shuttingDown (eb w')"
proof (induction as arbitrary: w)
  case Nil
  then show ?case by simp
next
  case (Cons a as)
  then show ?case by (auto simp: and_then_Done_iff dest: shuttingDown_act)
qed

lemma Shutdown_sets_flag: "Shutdown w = Done w' \<Longrightarrow> shuttingDown (eb w')"
  using Shutdown_locked_Done(1) [of "store_shuttingDown w" w']
  by (auto simp: Shutdown_def split: if_splits)

section \<open>The callback's calls under any schedule\<close>

lemma close_all_buf:
  "close_all cs h = Done h' \<Longrightarrow> c < length h \<Longrightarrow> buf (h' ! c) = buf (h ! c)"
proof (induction cs arbitrary: h)
  case Nil
  then show ?case by simp
next
  case (Cons d cs)
  from Cons.prems obtain h1 where d: "chan_close d h = Done h1" and r: "close_all cs h1 = Done h'"
    by (auto simp: and_then_Done_iff)
  from d have h1: "h1 = h[d := (h ! d)\<lparr>closed := True\<rparr>]" "d < length h"
    by (auto simp: chan_close_def split: if_splits)
  have "buf (h' ! c) = buf (h1 ! c)" using Cons.IH [OF r] Cons.prems(2) h1 by simp
  also have "\<dots> = buf (h ! c)" using Cons.prems(2) h1 by (cases "c = d") simp_all
  finally show ?case .
qed

text \<open>What one step of another goroutine or of the consumer does to the history.\<close>

lemma history_run:
  assumes s: "sole_consumer i ch w" and j: "j < length (gos w)" and r: "run (gos w ! j) j w = Done w'"
  shows "sole_consumer i ch w' \<and> (\<exists>ys. history i ch w' = history i ch w @ ys)"
proof -
  from s have i: "i < length (gos w)" and c: "ch < length (chans w)"
    and st: "consumes ch (gos w ! i)
         \<or> exited (gos w ! i) \<and> closed (chans w ! ch) \<and> buf (chans w ! ch) = []"
    and o: "\<forall>j<length (gos w). j \<noteq> i \<longrightarrow> \<not> consumes ch (gos w ! j)"
    by (simp_all add: sole_consumer_def)
  show ?thesis
  proof (cases "gos w ! j")
    case (Subscribe_enter t)
    have "j \<noteq> i" using st Subscribe_enter by auto
    then show ?thesis using Subscribe_enter r i c st o j
      by (auto simp: sole_consumer_def history_def case_prod_beta nth_append nth_list_update
          split: if_splits)
  next
    case (Subscribe_register t)
    have "j \<noteq> i" using st Subscribe_register by auto
    then show ?thesis using Subscribe_register r i c st o j
      by (auto simp: sole_consumer_def history_def case_prod_beta nth_append nth_list_update
          split: if_splits)
  next
    case (SubscribeFunc_enter t)
    have "j \<noteq> i" using st SubscribeFunc_enter by auto
    then show ?thesis using SubscribeFunc_enter r i c st o j
      by (auto simp: sole_consumer_def history_def case_prod_beta nth_append nth_list_update
          less_Suc_eq split: if_splits)
  next
    case (SubscribeFunc_register t)
    have "j \<noteq> i" using st SubscribeFunc_register by auto
    then show ?thesis using SubscribeFunc_register r i c st o j
      by (auto simp: sole_consumer_def history_def case_prod_beta nth_append nth_list_update
          less_Suc_eq split: if_splits)
  next
    case (Publish_enter e)
    have "j \<noteq> i" using st Publish_enter by auto
    then show ?thesis using Publish_enter r i c st o j
      by (auto simp: sole_consumer_def history_def nth_list_update split: if_splits)
  next
    case (Publish_dispatch e)
    have "j \<noteq> i" using st Publish_dispatch by auto
    then show ?thesis using Publish_dispatch r i c st o j
      by (auto simp: sole_consumer_def history_def nth_list_update nth_append Publish_locked_eq
          split: if_splits)
  next
    case Shutdown_enter
    have "j \<noteq> i" using st Shutdown_enter by auto
    then show ?thesis using Shutdown_enter r i c st o j
      by (auto simp: sole_consumer_def history_def nth_list_update store_shuttingDown_def
          split: if_splits)
  next
    case Shutdown_wait
    have "j \<noteq> i" using st Shutdown_wait by auto
    then show ?thesis using Shutdown_wait r i c st o j
      by (auto simp: sole_consumer_def history_def nth_list_update split: if_splits)
  next
    case Shutdown_close
    have ji: "j \<noteq> i" using st Shutdown_close by auto
    from r Shutdown_close obtain h where h: "close_all (registered (eb w)) (chans w) = Done h"
      and w': "w' = set_go j (Returned None) (w\<lparr>chans := h\<rparr>)"
      by (auto simp: Shutdown_locked_def and_then_Done_iff
          split: if_splits)
    note ca = close_all_Done [OF h]
    have b: "buf (h ! ch) = buf (chans w ! ch)" by (rule close_all_buf [OF h c])
    show ?thesis using ji i c st o j ca b
      by (auto simp: w' sole_consumer_def history_def nth_list_update
          split: if_splits)
  next
    case (Deliver d e)
    have ji: "j \<noteq> i" using st Deliver by auto
    from r Deliver obtain h where h: "chan_send d e (chans w) = Done h"
      and w': "w' = set_go j Deliver_done (w\<lparr>chans := h\<rparr>)"
      by (auto simp: and_then_Done_iff
          split: if_splits)
    from h have hp: "h = push e d (chans w)" "d < length (chans w)" "\<not> closed (chans w ! d)"
      by (auto simp: chan_send_def split: if_splits)
    show ?thesis using ji i c st o j hp
      by (auto simp: w' sole_consumer_def history_def nth_list_update nth_push
          split: if_splits)
  next
    case Deliver_done
    have "j \<noteq> i" using st Deliver_done by auto
    then show ?thesis using Deliver_done r i c st o j
      by (auto simp: sole_consumer_def history_def nth_list_update split: if_splits)
  next
    case (Consume d calls)
    show ?thesis
    proof (cases "j = i")
      case True
      then have d: "d = ch" using st Consume by auto
      show ?thesis
      proof (cases "buf (chans w ! ch)")
        case Nil
        then show ?thesis using True d Consume r i c o
          by (auto simp: sole_consumer_def history_def chan_recv_def nth_list_update
              split: if_splits)
      next
        case (Cons x xs)
        then show ?thesis using True d Consume r i c o
          by (auto simp: sole_consumer_def history_def chan_recv_def nth_list_update
          split: if_splits)
      qed
    next
      case False
      then have d: "d \<noteq> ch" using o j Consume by auto
      show ?thesis
      proof (cases "chan_recv d (chans w)")
        case (Received e h)
        then have "h = (chans w)[d := (chans w ! d)\<lparr>buf := tl (buf (chans w ! d))\<rparr>]"
          by (auto simp: chan_recv_def split: if_splits list.splits)
        then show ?thesis using False d Consume Received r i c st o j
          by (auto simp: sole_consumer_def history_def nth_list_update
          split: if_splits)
      next
        case End_of_stream
        then show ?thesis using False d Consume r i c st o j
          by (auto simp: sole_consumer_def history_def nth_list_update
          split: if_splits)
      next
        case Recv_blocked
        then show ?thesis using Consume r by simp
      qed
    qed
  next
    case (Consume_exit calls)
    then show ?thesis using r by simp
  next
    case (Returned x)
    then show ?thesis using r by simp
  qed
qed

lemma history_act:
  assumes "sole_consumer i ch w" "act a w = Done w'"
  shows "sole_consumer i ch w' \<and> (\<exists>ys. history i ch w' = history i ch w @ ys)"
proof (cases a)
  case (Call c)
  then have w': "w' = spawn (enter c) w" using assms(2) by simp
  have "\<not> consumes ch (enter c)" by (cases c) simp_all
  then show ?thesis using assms(1)
    by (auto simp: w' sole_consumer_def history_def nth_append less_Suc_eq)
next
  case (Step j)
  then show ?thesis using assms history_run [of i ch w j w']
    by (auto simp: step_def split: if_splits)
qed

lemma history_exec:
  "sole_consumer i ch w \<Longrightarrow> exec as w = Done w' \<Longrightarrow>
   sole_consumer i ch w' \<and> (\<exists>ys. history i ch w' = history i ch w @ ys)"
proof (induction as arbitrary: w)
  case Nil
  then show ?case by simp
next
  case (Cons a as)
  from Cons.prems(2) obtain w1 where a: "act a w = Done w1" and r: "exec as w1 = Done w'"
    by (auto simp: and_then_Done_iff)
  from history_act [OF Cons.prems(1) a] obtain ys where
    s1: "sole_consumer i ch w1" and h1: "history i ch w1 = history i ch w @ ys" by blast
  from Cons.IH [OF s1 r] obtain zs where
    s2: "sole_consumer i ch w'" and h2: "history i ch w' = history i ch w1 @ zs" by blast
  show ?case using s2 h1 h2 by simp
qed

text \<open>No two consumers ever share a channel: each is started on a fresh one.\<close>

lemma apart_frame:
  assumes a: "consumers_apart w" and j: "j < length (gos w)"
    and g: "\<forall>c. consumes c g \<longrightarrow> consumes c (gos w ! j)"
    and l: "length (chans w) \<le> length (chans w')" and gs: "gos w' = (gos w)[j := g]"
  shows "consumers_apart w'"
  unfolding consumers_apart_def
proof (intro allI impI)
  fix i c assume i: "i < length (gos w')" and c: "consumes c (gos w' ! i)"
  have i': "i < length (gos w)" using i gs by simp
  have ci: "consumes c (gos w ! i)"
    using c g i' gs by (cases "i = j") (simp_all)
  from a i' ci have b: "c < length (chans w)"
    and o: "\<forall>k<length (gos w). k \<noteq> i \<longrightarrow> \<not> consumes c (gos w ! k)"
    by (auto simp: consumers_apart_def)
  have "\<forall>k<length (gos w'). k \<noteq> i \<longrightarrow> \<not> consumes c (gos w' ! k)"
  proof (intro allI impI)
    fix k assume k: "k < length (gos w')" "k \<noteq> i"
    then have "\<not> consumes c (gos w ! k)" using o gs by simp
    then show "\<not> consumes c (gos w' ! k)"
      using g k gs by (cases "k = j") (auto)
  qed
  then show "c < length (chans w') \<and> (\<forall>k<length (gos w'). k \<noteq> i \<longrightarrow> \<not> consumes c (gos w' ! k))"
    using b l by simp
qed

lemma apart_spawn:
  assumes a: "consumers_apart w"
    and g: "\<forall>c. consumes c g \<longrightarrow> length (chans w) \<le> c \<and> c < length (chans w')"
    and l: "length (chans w) \<le> length (chans w')" and gs: "gos w' = gos w @ [g]"
  shows "consumers_apart w'"
  unfolding consumers_apart_def
proof (intro allI impI)
  fix i c assume i: "i < length (gos w')" and c: "consumes c (gos w' ! i)"
  show "c < length (chans w') \<and> (\<forall>k<length (gos w'). k \<noteq> i \<longrightarrow> \<not> consumes c (gos w' ! k))"
  proof (cases "i < length (gos w)")
    case True
    then have ci: "consumes c (gos w ! i)" using c gs by (simp add: nth_append)
    from a True ci have b: "c < length (chans w)"
      and o: "\<forall>k<length (gos w). k \<noteq> i \<longrightarrow> \<not> consumes c (gos w ! k)"
      by (auto simp: consumers_apart_def)
    have "\<not> consumes c g" using g b by auto
    then show ?thesis using b l o gs by (auto simp: nth_append less_Suc_eq)
  next
    case False
    then have ig: "i = length (gos w)" using i gs by simp
    then have cg: "consumes c g" using c gs by simp
    then have fresh: "length (chans w) \<le> c" "c < length (chans w')" using g by auto
    have "\<forall>k<length (gos w). \<not> consumes c (gos w ! k)"
      using a fresh by (fastforce simp: consumers_apart_def)
    then show ?thesis using fresh ig gs by (auto simp: nth_append less_Suc_eq)
  qed
qed

lemma apart_append:
  assumes a: "consumers_apart w" and n: "\<forall>g\<in>set new. \<forall>c. \<not> consumes c g"
    and l: "length (chans w) \<le> length (chans w')" and gs: "gos w' = gos w @ new"
  shows "consumers_apart w'"
  unfolding consumers_apart_def
proof (intro allI impI)
  fix i c assume i: "i < length (gos w')" and c: "consumes c (gos w' ! i)"
  have nn: "\<And>k. k < length new \<Longrightarrow> \<not> consumes c (new ! k)" using n by simp
  have i': "i < length (gos w)"
  proof (rule ccontr)
    assume "\<not> i < length (gos w)"
    then have "gos w' ! i = new ! (i - length (gos w))" "i - length (gos w) < length new"
      using i gs by (simp_all add: nth_append)
    then show False using c nn by simp
  qed
  then have ci: "consumes c (gos w ! i)" using c gs by (simp add: nth_append)
  from a i' ci have b: "c < length (chans w)"
    and o: "\<forall>k<length (gos w). k \<noteq> i \<longrightarrow> \<not> consumes c (gos w ! k)"
    by (auto simp: consumers_apart_def)
  have "\<forall>k<length (gos w'). k \<noteq> i \<longrightarrow> \<not> consumes c (gos w' ! k)"
  proof (intro allI impI)
    fix k assume k: "k < length (gos w')" "k \<noteq> i"
    show "\<not> consumes c (gos w' ! k)"
    proof (cases "k < length (gos w)")
      case True
      then show ?thesis using o k gs by (simp add: nth_append)
    next
      case False
      then have "gos w' ! k = new ! (k - length (gos w))" "k - length (gos w) < length new"
        using k gs by (simp_all add: nth_append)
      then show ?thesis using nn by simp
    qed
  qed
  then show "c < length (chans w') \<and> (\<forall>k<length (gos w'). k \<noteq> i \<longrightarrow> \<not> consumes c (gos w' ! k))"
    using b l by simp
qed

lemma apart_set_go:
  assumes "consumers_apart w" "j < length (gos w)" "\<forall>c. consumes c g \<longrightarrow> consumes c (gos w ! j)"
  shows "consumers_apart (set_go j g w)"
  by (rule apart_frame [OF assms(1,2), of g]) (use assms(3) in simp_all)

lemma apart_chans:
  assumes "consumers_apart w" "length (chans w) \<le> length h"
  shows "consumers_apart (w\<lparr>chans := h\<rparr>)"
  using assms unfolding consumers_apart_def by (simp, meson less_le_trans)

lemma apart_eb:
  "consumers_apart (w\<lparr>eb := b\<rparr>) = consumers_apart w"
  by (simp add: consumers_apart_def)

lemma apart_SubscribeFunc_step:
  assumes a: "consumers_apart w" and j: "j < length (gos w)"
    and e0: "gos w0 = gos w" and c0: "length (chans w0) = Suc (length (chans w))"
  shows "consumers_apart (set_go j (Returned None) (spawn (Consume (length (chans w)) []) w0))"
proof -
  let ?w1 = "set_go j (Returned None) w"
  have 1: "consumers_apart ?w1" by (rule apart_set_go [OF a j]) simp
  show ?thesis
    by (rule apart_spawn [OF 1, of "Consume (length (chans w)) []"])
      (use j e0 c0 in \<open>simp_all add: list_update_append\<close>)
qed

lemma apart_run:
  assumes a: "consumers_apart w" and j: "j < length (gos w)" and r: "run (gos w ! j) j w = Done w'"
  shows "consumers_apart w'"
proof (cases "gos w ! j")
  case (Subscribe_enter t)
  show ?thesis
  proof (cases "shuttingDown (eb w)")
    case True
    then have w': "w' = set_go j (Returned (Some (length (chans w))))
        (w\<lparr>chans := chans (snd (Subscribe_closed w))\<rparr>)"
      using r Subscribe_enter
      by (simp add: case_prod_beta Subscribe_closed_def make_chan_def set_go_def)
    show ?thesis unfolding w'
      by (rule apart_set_go [OF apart_chans [OF a]]) (use j in simp_all)
  next
    case False
    then have w': "w' = set_go j (Subscribe_register t) w" using r Subscribe_enter by simp
    show ?thesis unfolding w' by (rule apart_set_go [OF a j]) simp
  qed
next
  case (Subscribe_register t)
  let ?w0 = "snd (Subscribe_locked t w)"
  have w': "w' = set_go j (Returned (Some (length (chans w)))) ?w0"
    using r Subscribe_register by (simp add: case_prod_beta)
  have "consumers_apart (w\<lparr>chans := chans ?w0\<rparr>)"
    by (rule apart_chans [OF a]) simp
  then have "consumers_apart ?w0" by (simp add: consumers_apart_def)
  then show ?thesis unfolding w' by (rule apart_set_go) (use j in simp_all)
next
  case (SubscribeFunc_enter t)
  show ?thesis
  proof (cases "shuttingDown (eb w)")
    case True
    then have w': "w' = set_go j (Returned None)
        (spawn (Consume (length (chans w)) []) (snd (Subscribe_closed w)))"
      using r SubscribeFunc_enter by (simp add: case_prod_beta)
    show ?thesis unfolding w' by (rule apart_SubscribeFunc_step [OF a j]) simp_all
  next
    case False
    then have w': "w' = set_go j (SubscribeFunc_register t) w"
      using r SubscribeFunc_enter by simp
    show ?thesis unfolding w' by (rule apart_set_go [OF a j]) simp
  qed
next
  case (SubscribeFunc_register t)
  have w': "w' = set_go j (Returned None)
        (spawn (Consume (length (chans w)) []) (snd (Subscribe_locked t w)))"
    using r SubscribeFunc_register by (simp add: case_prod_beta)
  show ?thesis unfolding w' by (rule apart_SubscribeFunc_step [OF a j]) simp_all
next
  case (Publish_enter e)
  then have "w' = set_go j (Returned None) w \<or> w' = set_go j (Publish_dispatch e) w"
    using r by (auto split: if_splits)
  then show ?thesis using apart_set_go [OF a j] by auto
next
  case (Publish_dispatch e)
  let ?w1 = "set_go j (Returned None) w"
  have 1: "consumers_apart ?w1" by (rule apart_set_go [OF a j]) simp
  have w': "w' = set_go j (Returned None) (Publish_locked e w)"
    using r Publish_dispatch by simp
  show ?thesis unfolding w'
    by (rule apart_append [OF 1, of "map (\<lambda>c. Deliver c e) (matching (eb w) e)"])
      (use j in \<open>auto simp: list_update_append\<close>)
next
  case Shutdown_enter
  then have w': "w' = set_go j Shutdown_wait (store_shuttingDown w)" using r by simp
  have "consumers_apart (store_shuttingDown w)"
    using a by (simp add: consumers_apart_def)
  then show ?thesis unfolding w' by (rule apart_set_go) (use j in simp_all)
next
  case Shutdown_wait
  then have w': "w' = set_go j Shutdown_close w" using r by (auto split: if_splits)
  show ?thesis unfolding w' by (rule apart_set_go [OF a j]) simp
next
  case Shutdown_close
  from r Shutdown_close obtain w1 where w1: "Shutdown_locked w = Done w1"
    and w': "w' = set_go j (Returned None) w1"
    by (auto simp: and_then_Done_iff)
  have "consumers_apart w1"
    using a Shutdown_locked_Done [OF w1] by (simp add: consumers_apart_def)
  then show ?thesis unfolding w'
    by (rule apart_set_go) (use j Shutdown_locked_Done [OF w1] in simp_all)
next
  case (Deliver d e)
  from r Deliver obtain h where h: "chan_send d e (chans w) = Done h"
    and w': "w' = set_go j Deliver_done (w\<lparr>chans := h\<rparr>)"
    by (auto simp: and_then_Done_iff)
  have "consumers_apart (w\<lparr>chans := h\<rparr>)"
    by (rule apart_chans [OF a]) (use chan_send_Done [OF h] in simp)
  then show ?thesis unfolding w' by (rule apart_set_go) (use j in simp_all)
next
  case Deliver_done
  then have w': "w' = set_go j (Returned None) (w\<lparr>eb := (eb w)\<lparr>wg := wg (eb w) - 1\<rparr>\<rparr>)"
    using r by (auto split: if_splits)
  show ?thesis unfolding w'
    by (rule apart_set_go) (use a j in \<open>simp_all add: apart_eb\<close>)
next
  case (Consume d calls)
  show ?thesis
  proof (cases "chan_recv d (chans w)")
    case (Received e h)
    then have w': "w' = set_go j (Consume d (calls @ [e])) (w\<lparr>chans := h\<rparr>)"
      using r Consume by simp
    have "consumers_apart (w\<lparr>chans := h\<rparr>)"
      by (rule apart_chans [OF a]) (use chan_recv_Received [OF Received] in simp)
    then show ?thesis unfolding w' by (rule apart_set_go) (use j Consume in simp_all)
  next
    case End_of_stream
    then have w': "w' = set_go j (Consume_exit calls) w" using r Consume by simp
    show ?thesis unfolding w' by (rule apart_set_go [OF a j]) simp
  next
    case Recv_blocked
    then show ?thesis using r Consume by simp
  qed
next
  case (Consume_exit calls)
  then show ?thesis using r by simp
next
  case (Returned x)
  then show ?thesis using r by simp
qed

lemma apart_act: "consumers_apart w \<Longrightarrow> act a w = Done w' \<Longrightarrow> consumers_apart w'"
proof (cases a)
  case (Call c)
  assume a: "consumers_apart w" and "act a w = Done w'"
  then have w': "w' = spawn (enter c) w" using Call by simp
  have "\<forall>d. \<not> consumes d (enter c)" by (cases c) simp_all
  then show ?thesis unfolding w' by (intro apart_append [OF a, of "[enter c]"]) simp_all
next
  case (Step j)
  assume "consumers_apart w" "act a w = Done w'"
  then show ?thesis using Step apart_run [of w j w'] by (auto simp: step_def split: if_splits)
qed

lemma apart_exec: "consumers_apart w \<Longrightarrow> exec as w = Done w' \<Longrightarrow> consumers_apart w'"
proof (induction as arbitrary: w)
  case Nil
  then show ?case by simp
next
  case (Cons a as)
  then show ?case by (auto simp: and_then_Done_iff dest: apart_act)
qed

lemma apart_reachable: "exec sched NewBroker = Done w \<Longrightarrow> consumers_apart w"
  by (rule apart_exec [of NewBroker]) (simp_all add: consumers_apart_def NewBroker_def)

lemma apart_sole:
  assumes "consumers_apart w" "i < length (gos w)" "gos w ! i = Consume ch calls"
  shows "sole_consumer i ch w"
  using assms by (auto simp: consumers_apart_def sole_consumer_def)

section \<open>Calls and their steps\<close>

text \<open>
  Each of the four methods, as a function on states, is the run of its caller's steps
  with no other goroutine in between.
\<close>

lemma Subscribe_as_steps:
  assumes "i < length (gos w)" "gos w ! i = Subscribe_enter t"
  shows "exec (if shuttingDown (eb w) then [Step i] else [Step i, Step i]) w =
     Done (set_go i (Returned (Some (fst (Subscribe t w)))) (snd (Subscribe t w)))"
  using assms
  by (simp add: step_def Subscribe_def Subscribe_closed_def Subscribe_locked_def make_chan_def
      set_go_def)

lemma SubscribeFunc_as_steps:
  assumes "i < length (gos w)" "gos w ! i = SubscribeFunc_enter t"
  shows "exec (if shuttingDown (eb w) then [Step i] else [Step i, Step i]) w =
     Done (set_go i (Returned None) (SubscribeFunc t w))"
  using assms
  by (simp add: step_def SubscribeFunc_def Subscribe_def Subscribe_closed_def
      Subscribe_locked_def make_chan_def set_go_def spawn_def list_update_append)

lemma Publish_as_steps:
  assumes "i < length (gos w)" "gos w ! i = Publish_enter e"
  shows "exec (if shuttingDown (eb w) then [Step i] else [Step i, Step i]) w =
     Done (set_go i (Returned None) (Publish e w))"
  using assms
  by (simp add: step_def Publish_def Publish_locked_eq set_go_def matching_def list_update_append)

lemma Shutdown_as_steps:
  assumes "i < length (gos w)" "gos w ! i = Shutdown_enter"
  shows "exec [Step i, Step i, Step i] w =
     and_then (Shutdown w) (\<lambda>w'. Done (set_go i (Returned None) w'))"
proof (cases "close_all (registered (eb w)) (chans w)")
  case (Done h)
  then show ?thesis using assms
    by (simp add: step_def Shutdown_def Shutdown_locked_def store_shuttingDown_def set_go_def
        registered_def)
next
  case (Fault f)
  then show ?thesis using assms
    by (simp add: step_def Shutdown_def Shutdown_locked_def store_shuttingDown_def set_go_def
        registered_def)
next
  case Blocked
  then show ?thesis using assms
    by (simp add: step_def Shutdown_def Shutdown_locked_def store_shuttingDown_def set_go_def
        registered_def)
qed

section \<open>Publishing and delivering\<close>

lemma Publish_sync_Done:
  assumes "wf w" and "\<not> shuttingDown (eb w)"
    and "\<forall>c\<in>set (matching (eb w) e). length (buf (chans w ! c)) < cap (chans w ! c)"
  shows "Publish_sync e w =
     Done (w\<lparr>chans := fold (push e) (matching (eb w) e) (chans w),
             gos := gos w @ replicate (length (matching (eb w) e)) (Returned None)\<rparr>)"
proof -
  let ?m = "matching (eb w) e"
  let ?w1 = "Publish_locked e w"
  have p: "Publish e w = ?w1" using assms(2) by (simp add: Publish_def)
  have reg: "\<forall>c\<in>set (registered (eb w)). c < length (chans w) \<and> \<not> closed (chans w ! c)"
    using assms(1,2) by (auto simp: wf_def wf_registry_def wf_open_def)
  have d: "distinct ?m" using assms(1) by (simp add: wf_def wf_registry_def matching_distinct)
  have r: "\<forall>c\<in>set ?m. c < length (chans ?w1) \<and> \<not> closed (chans ?w1 ! c)
            \<and> length (buf (chans ?w1 ! c)) < cap (chans ?w1 ! c)"
    using reg assms(3) matching_subset [of "eb w" e] by auto
  have g: "int (length ?m) \<le> wg (eb ?w1)"
    using assms(1) by (simp add: wf_def wf_wg_def)
  have "exec (deliveries (length (gos w)) (length ?m)) ?w1 =
     Done (?w1\<lparr>eb := (eb ?w1)\<lparr>wg := wg (eb ?w1) - int (length ?m)\<rparr>,
             chans := fold (push e) ?m (chans ?w1),
             gos := gos w @ replicate (length ?m) (Returned None)\<rparr>)"
    by (rule deliver_run [OF _ d r g]) simp
  then show ?thesis by (simp add: Publish_sync_def p Publish_locked_eq)
qed

lemma typed_disjoint_all:
  "wf w \<Longrightarrow> set (lookup (subscribers (eb w)) t) \<inter> set (allSubscribers (eb w)) = {}"
  using lookup_subset [of "subscribers (eb w)" t]
  by (auto simp: wf_def wf_registry_def registered_def)


subsection \<open>The concrete states\<close>

lemma scenario_B_eq:
  "scenario_B =
     \<lparr>eb = \<lparr>subscribers = [(''a'', [0]), (''b'', [1])], allSubscribers = [2], wg = 0,
             shuttingDown = False\<rparr>,
      chans = [open_chan [], open_chan [], open_chan []], gos = []\<rparr>"
  by (simp add: scenario_B_def Subscribe_def Subscribe_locked_def make_chan_def NewBroker_def
      open_chan_def)

lemma scenario_D_eq: "Shutdown (snd (Subscribe ''a'' NewBroker)) = Done scenario_D"
  by (simp add: scenario_D_def Shutdown_def Shutdown_locked_def store_shuttingDown_def
      registered_def chan_close_def Subscribe_def Subscribe_locked_def make_chan_def NewBroker_def)

lemma scenario_F_eq:
  "exec [Call (Call_SubscribeFunc ''a''), Step 0, Step 0,
         Call (Call_Publish event_a1), Step 2, Step 2, Step 3, Step 3,
         Call (Call_Publish event_a2), Step 4, Step 4, Step 5, Step 5,
         Call Call_Shutdown, Step 6, Step 6, Step 6] NewBroker = Done scenario_F"
  by (simp add: scenario_F_def step_def set_go_def spawn_def Subscribe_locked_def NewBroker_def
      make_chan_def Publish_locked_def spawn_deliver_def chan_send_def push_def
      Shutdown_locked_def store_shuttingDown_def registered_def chan_close_def
      event_a1_def event_a2_def)


section \<open>The properties\<close>

text \<open>
  C1. Every state reachable from \<open>NewBroker\<close> satisfies the invariant \<open>wf\<close>
  (\<open>wf_reachable\<close>), and the four methods keep it. In such a state, when the broker is
  not shutting down, \<open>Publish\<close> starts
  exactly one delivery goroutine for every channel subscribed to the event's type and
  for every wildcard channel, each channel occurring once, and none for a channel
  subscribed to another type. When the goroutines it started have run (each target
  having room in its buffer), every such channel holds one more event, the published
  one, at the end of its buffer, and every other channel holds what it held before.
\<close>

theorem Publish_fanout:
  assumes "wf w" and "\<not> shuttingDown (eb w)"
  shows "gos (Publish e w) = gos w @ map (\<lambda>c. Deliver c e) (matching (eb w) e)
    \<and> distinct (matching (eb w) e)
    \<and> (\<forall>t. t \<noteq> ev_type e \<longrightarrow>
          set (lookup (subscribers (eb w)) t) \<inter> set (matching (eb w) e) = {})
    \<and> ((\<forall>c\<in>set (matching (eb w) e). length (buf (chans w ! c)) < cap (chans w ! c)) \<longrightarrow>
        (\<exists>w'. Publish_sync e w = Done w' \<and> eb w' = eb w
          \<and> length (chans w') = length (chans w)
          \<and> (\<forall>c<length (chans w). buf (chans w' ! c) =
                (if c \<in> set (lookup (subscribers (eb w)) (ev_type e))
                    \<or> c \<in> set (allSubscribers (eb w))
                 then buf (chans w ! c) @ [e] else buf (chans w ! c)))))"
proof -
  have d: "distinct (matching (eb w) e)"
    using assms(1) by (simp add: wf_def wf_registry_def matching_distinct)
  have 1: "gos (Publish e w) = gos w @ map (\<lambda>c. Deliver c e) (matching (eb w) e)"
    using assms(2) by (simp add: Publish_def)
  have 3: "\<forall>t. t \<noteq> ev_type e \<longrightarrow>
          set (lookup (subscribers (eb w)) t) \<inter> set (matching (eb w) e) = {}"
  proof (intro allI impI)
    fix t assume t: "t \<noteq> ev_type e"
    have "distinct (typed (subscribers (eb w)))"
      using assms(1) by (simp add: wf_def wf_registry_def registered_def)
    then have "set (lookup (subscribers (eb w)) t)
        \<inter> set (lookup (subscribers (eb w)) (ev_type e)) = {}"
      using t by (rule lookup_disjoint)
    then show "set (lookup (subscribers (eb w)) t) \<inter> set (matching (eb w) e) = {}"
      using typed_disjoint_all [OF assms(1), of t] by (auto simp: matching_def)
  qed
  have 4: "(\<forall>c\<in>set (matching (eb w) e). length (buf (chans w ! c)) < cap (chans w ! c)) \<longrightarrow>
        (\<exists>w'. Publish_sync e w = Done w' \<and> eb w' = eb w
          \<and> length (chans w') = length (chans w)
          \<and> (\<forall>c<length (chans w). buf (chans w' ! c) =
                (if c \<in> set (lookup (subscribers (eb w)) (ev_type e))
                    \<or> c \<in> set (allSubscribers (eb w))
                 then buf (chans w ! c) @ [e] else buf (chans w ! c))))"
  proof
    assume room: "\<forall>c\<in>set (matching (eb w) e). length (buf (chans w ! c)) < cap (chans w ! c)"
    let ?w' = "w\<lparr>chans := fold (push e) (matching (eb w) e) (chans w),
               gos := gos w @ replicate (length (matching (eb w) e)) (Returned None)\<rparr>"
    have "Publish_sync e w = Done ?w'" by (rule Publish_sync_Done [OF assms room])
    moreover have "\<forall>c<length (chans w). buf (chans ?w' ! c) =
                (if c \<in> set (lookup (subscribers (eb w)) (ev_type e))
                    \<or> c \<in> set (allSubscribers (eb w))
                 then buf (chans w ! c) @ [e] else buf (chans w ! c))"
      using d by (simp add: fold_push_nth) (simp add: matching_def)
    ultimately show "\<exists>w'. Publish_sync e w = Done w' \<and> eb w' = eb w
          \<and> length (chans w') = length (chans w)
          \<and> (\<forall>c<length (chans w). buf (chans w' ! c) =
                (if c \<in> set (lookup (subscribers (eb w)) (ev_type e))
                    \<or> c \<in> set (allSubscribers (eb w))
                 then buf (chans w ! c) @ [e] else buf (chans w ! c)))"
      by (intro exI [of _ ?w']) simp
  qed
  show ?thesis using 1 d 3 4 by blast
qed

theorem Publish_fanout_witness:
  "wf scenario_B \<and> \<not> shuttingDown (eb scenario_B)
   \<and> matching (eb scenario_B) event_a1 = [0, 2]
   \<and> length (buf (chans scenario_B ! 0)) < cap (chans scenario_B ! 0)
   \<and> length (buf (chans scenario_B ! 2)) < cap (chans scenario_B ! 2)
   \<and> gos (Publish event_a1 scenario_B) = [Deliver 0 event_a1, Deliver 2 event_a1]
   \<and> (\<exists>w'. Publish_sync event_a1 scenario_B = Done w'
         \<and> buf (chans w' ! 0) = [event_a1] \<and> buf (chans w' ! 1) = []
         \<and> buf (chans w' ! 2) = [event_a1])"
proof -
  have m: "matching (eb scenario_B) event_a1 = [0, 2]"
    by (simp add: scenario_B_eq matching_def event_a1_def)
  have h1: "wf scenario_B"
    by (simp add: scenario_B_eq wf_def wf_registry_def wf_wg_def wf_open_def registered_def
        open_chan_def)
  have h2: "\<not> shuttingDown (eb scenario_B)" by (simp add: scenario_B_eq)
  have h3: "\<forall>c\<in>set (matching (eb scenario_B) event_a1).
         length (buf (chans scenario_B ! c)) < cap (chans scenario_B ! c)"
    unfolding m by (simp add: scenario_B_eq open_chan_def)
  note th = Publish_fanout [OF h1 h2, of event_a1]
  have g: "gos (Publish event_a1 scenario_B) =
        gos scenario_B @ map (\<lambda>c. Deliver c event_a1) (matching (eb scenario_B) event_a1)"
    using th by blast
  from th h3 obtain w' where s: "Publish_sync event_a1 scenario_B = Done w'"
    and b: "\<forall>c<length (chans scenario_B). buf (chans w' ! c) =
                (if c \<in> set (lookup (subscribers (eb scenario_B)) (ev_type event_a1))
                    \<or> c \<in> set (allSubscribers (eb scenario_B))
                 then buf (chans scenario_B ! c) @ [event_a1] else buf (chans scenario_B ! c))"
    by blast
  have "buf (chans w' ! 0) = [event_a1]"
    using b [rule_format, of 0] by (simp add: scenario_B_eq open_chan_def event_a1_def)
  moreover have "buf (chans w' ! 1) = []"
    using b [rule_format, of 1] by (simp add: scenario_B_eq open_chan_def event_a1_def)
  moreover have "buf (chans w' ! 2) = [event_a1]"
    using b [rule_format, of 2] by (simp add: scenario_B_eq open_chan_def event_a1_def)
  moreover have "gos (Publish event_a1 scenario_B) = [Deliver 0 event_a1, Deliver 2 event_a1]"
    using g unfolding m by (simp add: scenario_B_eq)
  moreover have "length (buf (chans scenario_B ! 0)) < cap (chans scenario_B ! 0)"
    "length (buf (chans scenario_B ! 2)) < cap (chans scenario_B ! 2)"
    by (simp_all add: scenario_B_eq open_chan_def)
  ultimately show ?thesis using h1 h2 m s by blast
qed

text \<open>
  C2 as stated fails: with one subscription, the first \<open>Shutdown\<close> completes and the
  second one panics with a close of a closed channel.
\<close>

theorem Shutdown_twice_counterexample:
  "Shutdown (snd (Subscribe ''a'' NewBroker)) = Done scenario_D
   \<and> and_then (Shutdown (snd (Subscribe ''a'' NewBroker))) Shutdown = Fault Close_of_closed"
  by (simp add: scenario_D_eq)
    (simp add: scenario_D_def Shutdown_def Shutdown_locked_def store_shuttingDown_def
      registered_def chan_close_def)

text \<open>
  C2, as amended. After a call of \<open>Shutdown\<close> that completed, a second call yields the
  same state again when the registry holds no channel; when it holds one, the second
  call panics on the first \<open>close\<close>, the channel being closed already.
\<close>

theorem Shutdown_twice:
  assumes "Shutdown w = Done w'"
  shows "Shutdown w' = (if registered (eb w') = [] then Done w' else Fault Close_of_closed)"
proof -
  from assms have z: "wg (eb w) = 0"
    by (auto simp: Shutdown_def store_shuttingDown_def split: if_splits)
  have rs: "registered (eb (store_shuttingDown w)) = registered (eb w)"
    and cs: "chans (store_shuttingDown w) = chans w"
    by (simp_all add: store_shuttingDown_def registered_def)
  from assms z have "Shutdown_locked (store_shuttingDown w) = Done w'"
    by (simp add: Shutdown_def store_shuttingDown_def)
  then obtain h where h: "close_all (registered (eb w)) (chans w) = Done h"
    and w': "w' = (store_shuttingDown w)\<lparr>chans := h\<rparr>"
    unfolding Shutdown_locked_def and_then_Done_iff rs cs by auto
  have s: "store_shuttingDown w' = w'" by (simp add: w' store_shuttingDown_def)
  have r: "registered (eb w') = registered (eb w)" by (simp add: w' store_shuttingDown_def registered_def)
  have c: "chans w' = h" by (simp add: w')
  have g: "wg (eb w') = 0" using z by (simp add: w' store_shuttingDown_def)
  show ?thesis
  proof (cases "registered (eb w)")
    case Nil
    then show ?thesis by (simp add: Shutdown_def s g r Shutdown_locked_def)
  next
    case (Cons a as)
    with close_all_Done [OF h] have "a < length h" "closed (h ! a)" by auto
    then have "close_all (registered (eb w)) h = Fault Close_of_closed"
      unfolding Cons by (rule close_all_closed_head)
    then show ?thesis by (simp add: Shutdown_def s g r c Shutdown_locked_def Cons)
  qed
qed

theorem Shutdown_twice_witness:
  "Shutdown NewBroker = Done (store_shuttingDown NewBroker)
   \<and> Shutdown (store_shuttingDown NewBroker) = Done (store_shuttingDown NewBroker)
   \<and> Shutdown (snd (Subscribe ''*'' NewBroker))
       = Done (store_shuttingDown (snd (Subscribe ''*'' NewBroker))
                \<lparr>chans := [\<lparr>buf = [], cap = 10, closed = True\<rparr>]\<rparr>)
   \<and> Shutdown (store_shuttingDown (snd (Subscribe ''*'' NewBroker))
                \<lparr>chans := [\<lparr>buf = [], cap = 10, closed = True\<rparr>]\<rparr>) = Fault Close_of_closed"
proof -
  have a: "Shutdown NewBroker = Done (store_shuttingDown NewBroker)"
    by (simp add: Shutdown_def Shutdown_locked_def store_shuttingDown_def registered_def
        NewBroker_def)
  have b: "Shutdown (snd (Subscribe ''*'' NewBroker))
       = Done (store_shuttingDown (snd (Subscribe ''*'' NewBroker))
                \<lparr>chans := [\<lparr>buf = [], cap = 10, closed = True\<rparr>]\<rparr>)"
    by (simp add: Shutdown_def Shutdown_locked_def store_shuttingDown_def registered_def
        chan_close_def Subscribe_def Subscribe_locked_def make_chan_def NewBroker_def)
  show ?thesis
    using a b Shutdown_twice [OF a] Shutdown_twice [OF b]
    by (simp add: store_shuttingDown_def registered_def Subscribe_def Subscribe_locked_def
        make_chan_def NewBroker_def)
qed




text \<open>
  C4. Once \<open>shuttingDown\<close> is set, which the first statement of \<open>Shutdown\<close> does for
  good, a call of \<open>Publish\<close> leaves the whole state as it is: no goroutine is started,
  no buffer and no counter changes. As a step of a caller, it only returns.
\<close>

theorem Publish_after_shutdown:
  assumes "shuttingDown (eb w)"
  shows "Publish e w = w \<and> run (Publish_enter e) i w = Done (set_go i (Returned None) w)"
  using assms by (simp add: Publish_def)

theorem Publish_after_shutdown_witness:
  "shuttingDown (eb scenario_D) \<and> Publish event_a1 scenario_D = scenario_D
   \<and> run (Publish_enter event_a1) 0 scenario_D = Done (set_go 0 (Returned None) scenario_D)"
proof -
  have h: "shuttingDown (eb scenario_D)" by (simp add: scenario_D_def)
  show ?thesis using h Publish_after_shutdown [OF h, of event_a1 0] by simp
qed

text \<open>
  C5. Once \<open>shuttingDown\<close> is set, \<open>Subscribe\<close>, for any event type, returns a fresh
  channel that is closed and empty, so that a receive on it reports the end of the
  stream at once; the broker, the goroutines and the existing channels stay as they
  are, and the new channel is not registered.
\<close>

theorem Subscribe_after_shutdown:
  assumes "shuttingDown (eb w)"
  shows "chan_recv (fst (Subscribe t w)) (chans (snd (Subscribe t w))) = End_of_stream
    \<and> closed (chans (snd (Subscribe t w)) ! fst (Subscribe t w))
    \<and> buf (chans (snd (Subscribe t w)) ! fst (Subscribe t w)) = []
    \<and> eb (snd (Subscribe t w)) = eb w
    \<and> gos (snd (Subscribe t w)) = gos w
    \<and> fst (Subscribe t w) = length (chans w)
    \<and> take (length (chans w)) (chans (snd (Subscribe t w))) = chans w"
  using assms by (simp add: Subscribe_def Subscribe_closed_def make_chan_def chan_recv_def)

theorem Subscribe_after_shutdown_witness:
  "shuttingDown (eb scenario_D)
   \<and> fst (Subscribe ''another.event'' scenario_D) = 1
   \<and> chan_recv 1 (chans (snd (Subscribe ''another.event'' scenario_D))) = End_of_stream
   \<and> eb (snd (Subscribe ''another.event'' scenario_D)) = eb scenario_D"
proof -
  have h: "shuttingDown (eb scenario_D)" by (simp add: scenario_D_def)
  have l: "length (chans scenario_D) = 1" by (simp add: scenario_D_def)
  have f: "fst (Subscribe ''another.event'' scenario_D) = 1"
    using Subscribe_after_shutdown [OF h, of "''another.event''"] unfolding l by simp
  have t: "chan_recv (fst (Subscribe ''another.event'' scenario_D))
        (chans (snd (Subscribe ''another.event'' scenario_D))) = End_of_stream"
    "eb (snd (Subscribe ''another.event'' scenario_D)) = eb scenario_D"
    using Subscribe_after_shutdown [OF h, of "''another.event''"] by blast+
  show ?thesis using h f t [unfolded f] by blast
qed

text \<open>
  C6 fails on the code. \<open>Publish\<close> loads \<open>shuttingDown\<close> before it takes the read
  lock. In this schedule a caller of \<open>Publish\<close> has loaded false when \<open>Shutdown\<close>
  runs from its first statement to its last: the counter is zero, so \<open>wg.Wait()\<close>
  returns and the subscriber's channel is closed. \<open>Publish\<close> then goes on, starts the
  delivery goroutine, and its send panics on the closed channel.
\<close>

theorem Publish_races_Shutdown:
  "exec [Call (Call_Subscribe ''a''), Step 0, Step 0,
         Call (Call_Publish event_a1), Step 1,
         Call Call_Shutdown, Step 2, Step 2, Step 2,
         Step 1, Step 3] NewBroker = Fault Send_on_closed"
  by (simp add: step_def set_go_def spawn_def Subscribe_locked_def NewBroker_def make_chan_def
      Shutdown_locked_def store_shuttingDown_def registered_def chan_close_def Publish_locked_def
      spawn_deliver_def chan_send_def event_a1_def)

text \<open>
  C7 fails on the code. \<open>Subscribe\<close> loads \<open>shuttingDown\<close> before it takes the lock.
  In this schedule a caller of \<open>Subscribe\<close> has loaded false when \<open>Shutdown\<close> runs
  from its first statement to its last; the caller then registers its channel. The
  final state has the flag set, \<open>Shutdown\<close> returned, and a registered channel that is
  open and that nothing will close.
\<close>

theorem Subscribe_races_Shutdown:
  "exec [Call (Call_Subscribe ''a''), Step 0,
         Call Call_Shutdown, Step 1, Step 1, Step 1,
         Step 0] NewBroker =
   Done \<lparr>eb = \<lparr>subscribers = [(''a'', [0])], allSubscribers = [], wg = 0,
               shuttingDown = True\<rparr>,
         chans = [open_chan []],
         gos = [Returned (Some 0), Returned None]\<rparr>"
  by (simp add: step_def set_go_def spawn_def Subscribe_locked_def NewBroker_def make_chan_def
      Shutdown_locked_def store_shuttingDown_def registered_def open_chan_def)

text \<open>
  C8. \<open>SubscribeFunc\<close> changes the state as \<open>Subscribe\<close> does and starts one consumer
  on the channel \<open>Subscribe\<close> returned, with no call of the callback made yet. A
  consumer that runs on a channel holding the events \<open>xs\<close> calls the callback once for
  each of them, in the order of the buffer; then, if the channel is closed, it leaves
  the loop with exactly these calls made, and otherwise it waits. A consumer that has
  left the loop takes no further step. And under any schedule, from any reachable
  state on, the calls made so far followed by the events the channel still holds are
  the calls and the events of the earlier state followed by the events sent since: no
  event reaches the callback twice, out of order, or not in its turn.
\<close>

theorem SubscribeFunc_consumer:
  assumes "i < length (gos v)" and "gos v ! i = Consume ch calls" and "ch < length (chans v)"
  shows "gos (SubscribeFunc t w) = gos w @ [Consume (fst (Subscribe t w)) []]
    \<and> eb (SubscribeFunc t w) = eb (snd (Subscribe t w))
    \<and> chans (SubscribeFunc t w) = chans (snd (Subscribe t w))
    \<and> (\<exists>v'. exec (replicate (length (buf (chans v ! ch))) (Step i)) v = Done v'
          \<and> gos v' ! i = Consume ch (calls @ buf (chans v ! ch))
          \<and> buf (chans v' ! ch) = []
          \<and> step i v' =
              (if closed (chans v ! ch)
               then Done (set_go i (Consume_exit (calls @ buf (chans v ! ch))) v')
               else Blocked)
          \<and> step i (set_go i (Consume_exit (calls @ buf (chans v ! ch))) v') = Blocked)
    \<and> (exec sched NewBroker = Done v \<longrightarrow>
        (\<forall>as v'. exec as v = Done v' \<longrightarrow>
           (\<exists>ys. calls_of (gos v' ! i) @ buf (chans v' ! ch) = calls @ buf (chans v ! ch) @ ys)))"
proof -
  let ?xs = "buf (chans v ! ch)"
  let ?v' = "set_go i (Consume ch (calls @ ?xs))
               (v\<lparr>chans := (chans v)[ch := (chans v ! ch)\<lparr>buf := []\<rparr>]\<rparr>)"
  have r: "exec (replicate (length ?xs) (Step i)) v = Done ?v'"
    by (rule consume_run [OF assms refl])
  have g: "gos ?v' ! i = Consume ch (calls @ ?xs)" using assms(1) by simp
  have b: "buf (chans ?v' ! ch) = []" using assms(3) by simp
  have s: "step i ?v' =
      (if closed (chans v ! ch) then Done (set_go i (Consume_exit (calls @ ?xs)) ?v') else Blocked)"
    using assms(1,3) by (simp add: step_def chan_recv_def)
  have e: "step i (set_go i (Consume_exit (calls @ ?xs)) ?v') = Blocked"
    using assms(1) by (simp add: step_def)
  have f: "gos (SubscribeFunc t w) = gos w @ [Consume (fst (Subscribe t w)) []]"
    "eb (SubscribeFunc t w) = eb (snd (Subscribe t w))"
    "chans (SubscribeFunc t w) = chans (snd (Subscribe t w))"
    by (simp_all add: SubscribeFunc_def case_prod_beta)
  have h: "exec sched NewBroker = Done v \<longrightarrow>
        (\<forall>as v'. exec as v = Done v' \<longrightarrow>
           (\<exists>ys. calls_of (gos v' ! i) @ buf (chans v' ! ch) = calls @ ?xs @ ys))"
  proof (intro impI allI)
    fix as v' assume reach: "exec sched NewBroker = Done v" and run: "exec as v = Done v'"
    have "sole_consumer i ch v"
      by (rule apart_sole [OF apart_reachable [OF reach] assms(1,2)])
    from history_exec [OF this run] obtain ys where
      "history i ch v' = history i ch v @ ys" by blast
    then show "\<exists>ys. calls_of (gos v' ! i) @ buf (chans v' ! ch) = calls @ ?xs @ ys"
      using assms(2) by (auto simp: history_def)
  qed
  show ?thesis using f r g b s e h by blast
qed

theorem SubscribeFunc_consumer_witness:
  "exec [Call (Call_SubscribeFunc ''a''), Step 0, Step 0,
         Call (Call_Publish event_a1), Step 2, Step 2, Step 3, Step 3,
         Call (Call_Publish event_a2), Step 4, Step 4, Step 5, Step 5,
         Call Call_Shutdown, Step 6, Step 6, Step 6] NewBroker = Done scenario_F
   \<and> 1 < length (gos scenario_F) \<and> gos scenario_F ! 1 = Consume 0 []
   \<and> 0 < length (chans scenario_F)
   \<and> (\<exists>v'. exec [Step 1, Step 1] scenario_F = Done v'
         \<and> gos v' ! 1 = Consume 0 [event_a1, event_a2]
         \<and> buf (chans v' ! 0) = []
         \<and> step 1 v' = Done (set_go 1 (Consume_exit [event_a1, event_a2]) v')
         \<and> step 1 (set_go 1 (Consume_exit [event_a1, event_a2]) v') = Blocked)
   \<and> (\<exists>v' ys. exec [Step 1] scenario_F = Done v'
         \<and> calls_of (gos v' ! 1) @ buf (chans v' ! 0) = [event_a1, event_a2] @ ys)"
proof -
  have h1: "1 < length (gos scenario_F)" and h2: "gos scenario_F ! 1 = Consume 0 []"
    and h3: "0 < length (chans scenario_F)"
    by (simp_all add: scenario_F_def)
  have b: "buf (chans scenario_F ! 0) = [event_a1, event_a2]"
    and c: "closed (chans scenario_F ! 0)"
    by (simp_all add: scenario_F_def)
  note th = SubscribeFunc_consumer [OF h1 h2 h3, of "''a''" NewBroker, unfolded b]
  have 1: "\<exists>v'. exec [Step 1, Step 1] scenario_F = Done v'
         \<and> gos v' ! 1 = Consume 0 [event_a1, event_a2]
         \<and> buf (chans v' ! 0) = []
         \<and> step 1 v' = Done (set_go 1 (Consume_exit [event_a1, event_a2]) v')
         \<and> step 1 (set_go 1 (Consume_exit [event_a1, event_a2]) v') = Blocked"
    using th by (simp add: c)
  obtain v1 where v1: "exec [Step 1] scenario_F = Done v1"
    by (simp add: scenario_F_def step_def chan_recv_def)
  from th scenario_F_eq v1 have
    "\<exists>ys. calls_of (gos v1 ! 1) @ buf (chans v1 ! 0) = [] @ [event_a1, event_a2] @ ys"
    by blast
  then have 2: "\<exists>v' ys. exec [Step 1] scenario_F = Done v'
         \<and> calls_of (gos v' ! 1) @ buf (chans v' ! 0) = [event_a1, event_a2] @ ys"
    using v1 by auto
  show ?thesis using scenario_F_eq h1 h2 h3 1 2 by blast
qed

text \<open>
  C9. In every state reached from \<open>NewBroker\<close> by any schedule, the typed map holds no
  channel under the key \<open>*\<close>; \<open>Subscribe\<close> with \<open>*\<close> leaves the typed map as it is
  and appends the new channel to the wildcard list; the wildcard list has no channel
  twice; and \<open>Publish\<close> of an event whose type is \<open>*\<close> starts one delivery goroutine
  per wildcard channel and no other, so that each wildcard channel receives the event
  once and no other channel receives it.
\<close>

theorem wildcard_is_not_a_type:
  assumes "exec sched NewBroker = Done w"
  shows "lookup (subscribers (eb w)) ''*'' = []
    \<and> subscribers (eb (snd (Subscribe ''*'' w))) = subscribers (eb w)
    \<and> (\<not> shuttingDown (eb w) \<longrightarrow>
         allSubscribers (eb (snd (Subscribe ''*'' w))) =
           allSubscribers (eb w) @ [fst (Subscribe ''*'' w)])
    \<and> distinct (allSubscribers (eb w))
    \<and> (ev_type e = ''*'' \<longrightarrow> \<not> shuttingDown (eb w) \<longrightarrow>
         gos (Publish e w) = gos w @ map (\<lambda>c. Deliver c e) (allSubscribers (eb w)))
    \<and> (ev_type e = ''*'' \<longrightarrow> \<not> shuttingDown (eb w) \<longrightarrow>
         (\<forall>c\<in>set (allSubscribers (eb w)). length (buf (chans w ! c)) < cap (chans w ! c)) \<longrightarrow>
         (\<exists>w'. Publish_sync e w = Done w'
            \<and> (\<forall>c<length (chans w). buf (chans w' ! c) =
                  (if c \<in> set (allSubscribers (eb w)) then buf (chans w ! c) @ [e]
                   else buf (chans w ! c)))))"
proof -
  have wf: "wf w" by (rule wf_reachable [OF assms])
  then have l: "lookup (subscribers (eb w)) ''*'' = []"
    by (simp add: wf_def wf_registry_def lookup_missing)
  have d: "distinct (allSubscribers (eb w))"
    using wf by (simp add: wf_def wf_registry_def registered_def)
  have s: "subscribers (eb (snd (Subscribe ''*'' w))) = subscribers (eb w)"
    by (simp add: Subscribe_def Subscribe_locked_registry)
  have a: "\<not> shuttingDown (eb w) \<longrightarrow>
         allSubscribers (eb (snd (Subscribe ''*'' w))) =
           allSubscribers (eb w) @ [fst (Subscribe ''*'' w)]"
    by (simp add: Subscribe_def Subscribe_locked_registry)
  have p: "ev_type e = ''*'' \<longrightarrow> \<not> shuttingDown (eb w) \<longrightarrow>
         gos (Publish e w) = gos w @ map (\<lambda>c. Deliver c e) (allSubscribers (eb w))"
    using l by (simp add: Publish_def matching_def)
  have q: "ev_type e = ''*'' \<longrightarrow> \<not> shuttingDown (eb w) \<longrightarrow>
         (\<forall>c\<in>set (allSubscribers (eb w)). length (buf (chans w ! c)) < cap (chans w ! c)) \<longrightarrow>
         (\<exists>w'. Publish_sync e w = Done w'
            \<and> (\<forall>c<length (chans w). buf (chans w' ! c) =
                  (if c \<in> set (allSubscribers (eb w)) then buf (chans w ! c) @ [e]
                   else buf (chans w ! c))))"
  proof (intro impI)
    assume t: "ev_type e = ''*''" and n: "\<not> shuttingDown (eb w)"
      and room: "\<forall>c\<in>set (allSubscribers (eb w)). length (buf (chans w ! c)) < cap (chans w ! c)"
    have m: "matching (eb w) e = allSubscribers (eb w)" using l t by (simp add: matching_def)
    let ?w' = "w\<lparr>chans := fold (push e) (allSubscribers (eb w)) (chans w),
             gos := gos w @ replicate (length (allSubscribers (eb w))) (Returned None)\<rparr>"
    have "Publish_sync e w = Done ?w'"
      using Publish_sync_Done [OF wf n, of e] room unfolding m by simp
    moreover have "\<forall>c<length (chans w). buf (chans ?w' ! c) =
                  (if c \<in> set (allSubscribers (eb w)) then buf (chans w ! c) @ [e]
                   else buf (chans w ! c))"
      using d by (simp add: fold_push_nth)
    ultimately show "\<exists>w'. Publish_sync e w = Done w'
            \<and> (\<forall>c<length (chans w). buf (chans w' ! c) =
                  (if c \<in> set (allSubscribers (eb w)) then buf (chans w ! c) @ [e]
                   else buf (chans w ! c)))"
      by blast
  qed
  show ?thesis using l s a d p q by blast
qed

theorem wildcard_is_not_a_type_witness:
  "exec [Call (Call_Subscribe ''*''), Step 0, Step 0,
         Call (Call_Subscribe ''a''), Step 1, Step 1] NewBroker = Done scenario_W
   \<and> lookup (subscribers (eb scenario_W)) ''*'' = []
   \<and> gos (Publish event_star scenario_W) = gos scenario_W @ [Deliver 0 event_star]
   \<and> (\<exists>w'. Publish_sync event_star scenario_W = Done w'
         \<and> buf (chans w' ! 0) = [event_star] \<and> buf (chans w' ! 1) = [])"
proof -
  have h: "exec [Call (Call_Subscribe ''*''), Step 0, Step 0,
         Call (Call_Subscribe ''a''), Step 1, Step 1] NewBroker = Done scenario_W"
    by (simp add: scenario_W_def step_def set_go_def spawn_def Subscribe_locked_def
        NewBroker_def make_chan_def open_chan_def)
  have t: "ev_type event_star = ''*''" by (simp add: event_star_def)
  have n: "\<not> shuttingDown (eb scenario_W)" by (simp add: scenario_W_def)
  have r: "\<forall>c\<in>set (allSubscribers (eb scenario_W)).
      length (buf (chans scenario_W ! c)) < cap (chans scenario_W ! c)"
    by (simp add: scenario_W_def open_chan_def)
  note th = wildcard_is_not_a_type [OF h, of event_star]
  have 1: "lookup (subscribers (eb scenario_W)) ''*'' = []" using th by blast
  have 2: "gos (Publish event_star scenario_W) = gos scenario_W @ [Deliver 0 event_star]"
    using th t n by (simp add: scenario_W_def)
  from th t n r obtain w' where w': "Publish_sync event_star scenario_W = Done w'"
    and b: "\<forall>c<length (chans scenario_W). buf (chans w' ! c) =
                  (if c \<in> set (allSubscribers (eb scenario_W))
                   then buf (chans scenario_W ! c) @ [event_star]
                   else buf (chans scenario_W ! c))"
    by blast
  have "buf (chans w' ! 0) = [event_star]"
    using b [rule_format, of 0] by (simp add: scenario_W_def open_chan_def)
  moreover have "buf (chans w' ! 1) = []"
    using b [rule_format, of 1] by (simp add: scenario_W_def open_chan_def)
  ultimately show ?thesis using h 1 2 w' by blast
qed

text \<open>
  C10. The function \<open>CloudEventForwarder\<close> returns, applied to an event, makes one
  call of the sender, with the background context and that event, and has no effect
  beyond the sender's.
\<close>

theorem CloudEventForwarder_once:
  "CloudEventForwarder (recording send) e (calls, s) = (calls @ [(Background, e)], send Background e s)"
  by (simp add: CloudEventForwarder_def recording_def)

end
